theory Spec2Isabelle
  imports Complex_Main
begin

section \<open>JavaScript values used by the program\<close>

text \<open>
  Participant identifiers are JavaScript numbers that the program uses as array indices;
  they are natural numbers here. A read that yields \<^verbatim>\<open>undefined\<close> (an array index out of
  range, \<^verbatim>\<open>Map.get\<close> of an absent key, \<^verbatim>\<open>find(...)?.[0]\<close> without a hit) is \<open>None\<close>.
  Reading a property of \<^verbatim>\<open>undefined\<close> throws a \<^verbatim>\<open>TypeError\<close>.
\<close>

type_synonym jsval = "nat option"

datatype error = TypeError

text \<open>
  Numbers that come out of a division are modelled by exact rationals together with the
  three special doubles. Rounding is not modelled, and the zero is unsigned: the only
  divisors in the program are \<^verbatim>\<open>this.n\<close> and \<^verbatim>\<open>this.n - 1\<close>, whose zero is \<^verbatim>\<open>+0\<close>.
\<close>

datatype jsnum = Fin rat | PInf | NInf | NaN

fun jadd :: "jsnum \<Rightarrow> jsnum \<Rightarrow> jsnum" where
  "jadd NaN _ = NaN"
| "jadd _ NaN = NaN"
| "jadd PInf NInf = NaN"
| "jadd NInf PInf = NaN"
| "jadd PInf _ = PInf"
| "jadd _ PInf = PInf"
| "jadd NInf _ = NInf"
| "jadd _ NInf = NInf"
| "jadd (Fin a) (Fin b) = Fin (a + b)"

fun jneg :: "jsnum \<Rightarrow> jsnum" where
  "jneg NaN = NaN"
| "jneg PInf = NInf"
| "jneg NInf = PInf"
| "jneg (Fin a) = Fin (- a)"

definition jsub :: "jsnum \<Rightarrow> jsnum \<Rightarrow> jsnum" where
  "jsub a b = jadd a (jneg b)"

fun jsign :: "jsnum \<Rightarrow> int" where
  "jsign (Fin a) = (if a < 0 then -1 else if a = 0 then 0 else 1)"
| "jsign PInf = 1"
| "jsign NInf = -1"
| "jsign NaN = 0"

fun jmul :: "jsnum \<Rightarrow> jsnum \<Rightarrow> jsnum" where
  "jmul NaN _ = NaN"
| "jmul _ NaN = NaN"
| "jmul (Fin a) (Fin b) = Fin (a * b)"
| "jmul a b =
     (if jsign a * jsign b = 0 then NaN else if jsign a * jsign b > 0 then PInf else NInf)"

fun jdiv :: "jsnum \<Rightarrow> jsnum \<Rightarrow> jsnum" where
  "jdiv NaN _ = NaN"
| "jdiv _ NaN = NaN"
| "jdiv (Fin a) (Fin b) =
     (if b \<noteq> 0 then Fin (a / b)
      else if a > 0 then PInf else if a < 0 then NInf else NaN)"
| "jdiv (Fin a) _ = Fin 0"
| "jdiv PInf (Fin b) = (if b < 0 then NInf else PInf)"
| "jdiv NInf (Fin b) = (if b < 0 then PInf else NInf)"
| "jdiv _ _ = NaN"

fun jabs :: "jsnum \<Rightarrow> jsnum" where
  "jabs NaN = NaN"
| "jabs PInf = PInf"
| "jabs NInf = PInf"
| "jabs (Fin a) = Fin \<bar>a\<bar>"

definition of_rank :: "int \<Rightarrow> jsnum" where
  "of_rank r = Fin (of_int r)"

subsection \<open>Arrays\<close>

text \<open>\<^verbatim>\<open>xs[i]\<close>: the element, or \<^verbatim>\<open>undefined\<close> out of range.\<close>

definition js_nth :: "nat list \<Rightarrow> nat \<Rightarrow> jsval" where
  "js_nth xs i = (if i < length xs then Some (xs ! i) else None)"

text \<open>\<^verbatim>\<open>xs.indexOf(v)\<close>: the first position of \<open>v\<close>, or \<open>-1\<close>. Strict equality never
  identifies \<^verbatim>\<open>undefined\<close> with a number.\<close>

fun first_index :: "nat list \<Rightarrow> nat \<Rightarrow> nat" where
  "first_index [] x = 0"
| "first_index (y # ys) x = (if y = x then 0 else Suc (first_index ys x))"

definition indexOf :: "nat list \<Rightarrow> jsval \<Rightarrow> int" where
  "indexOf xs v =
     (case v of
        None \<Rightarrow> -1
      | Some x \<Rightarrow> if x \<in> set xs then int (first_index xs x) else -1)"

text \<open>
  \<^verbatim>\<open>arr[i]++\<close> on an array of numbers. Inside the array the number is incremented. Beyond
  its end JavaScript reads \<^verbatim>\<open>undefined\<close>, stores \<^verbatim>\<open>NaN\<close> at index \<open>i\<close> and leaves holes
  before it; a hole reads as \<^verbatim>\<open>undefined\<close> (\<open>None\<close>), also after the spread copy.
\<close>

fun js_succ :: "jsnum option \<Rightarrow> jsnum option" where
  "js_succ None = Some NaN"
| "js_succ (Some x) = Some (jadd x (Fin 1))"

definition js_incr_at :: "jsnum option list \<Rightarrow> nat \<Rightarrow> jsnum option list" where
  "js_incr_at arr i =
     (if i < length arr then arr[i := js_succ (arr ! i)]
      else arr @ replicate (i - length arr) None @ [Some NaN])"

subsection \<open>Set and Map, in insertion order\<close>

text \<open>A \<^verbatim>\<open>Set\<close> is the list of its elements in insertion order, without repetition.\<close>

definition Set_add :: "nat list \<Rightarrow> nat \<Rightarrow> nat list" where
  "Set_add xs x = (if x \<in> set xs then xs else xs @ [x])"

definition Set_delete :: "nat list \<Rightarrow> nat \<Rightarrow> nat list" where
  "Set_delete xs x = removeAll x xs"

definition new_Set :: "nat list \<Rightarrow> nat list" where
  "new_Set xs = foldl Set_add [] xs"

text \<open>A \<^verbatim>\<open>Map\<close> is the list of its entries in insertion order, with distinct keys.
  \<^verbatim>\<open>set\<close> on a present key keeps the entry's position.\<close>

fun Map_set :: "('k \<times> 'v) list \<Rightarrow> 'k \<Rightarrow> 'v \<Rightarrow> ('k \<times> 'v) list" where
  "Map_set [] k v = [(k, v)]"
| "Map_set ((k', v') # m) k v =
     (if k' = k then (k, v) # m else (k', v') # Map_set m k v)"

text \<open>\<^verbatim>\<open>m.get(k)\<close> where the values are identifiers: \<^verbatim>\<open>undefined\<close> for an absent key.\<close>

definition Map_get :: "('k \<times> jsval) list \<Rightarrow> 'k \<Rightarrow> jsval" where
  "Map_get m k = (case map_of m k of None \<Rightarrow> None | Some v \<Rightarrow> v)"

text \<open>\<^verbatim>\<open>Array.from(m.entries()).find(([_, e]) => e === x)?.[0]\<close>: the key of the first
  entry whose value is \<open>x\<close>.\<close>

definition find_key :: "(jsval \<times> jsval) list \<Rightarrow> nat \<Rightarrow> jsval" where
  "find_key m x =
     (case find (\<lambda>(k, e). e = Some x) m of None \<Rightarrow> None | Some (k, e) \<Rightarrow> k)"

type_synonym matching = "(jsval \<times> jsval) list"

section \<open>StableMarriageAlgorithm\<close>

record engine =
  students :: "nat list"
  establishments :: "nat list"
  studentPrefs :: "nat list list"
  establishmentPrefs :: "nat list list"
  engine_n :: nat
  proposalCounts :: "jsnum option list"

definition constructor ::
  "nat list \<Rightarrow> nat list \<Rightarrow> nat list list \<Rightarrow> nat list list \<Rightarrow> engine" where
  "constructor sts ests sprefs eprefs =
     \<lparr> students = sts, establishments = ests, studentPrefs = sprefs,
       establishmentPrefs = eprefs, engine_n = length sts,
       proposalCounts = replicate (length sts) (Some (Fin 0)) \<rparr>"

text \<open>
  The local variables of a solve loop. \<open>engaged\<close> maps a receiver to the proposer it holds;
  its key is whatever the proposer's preference list yielded, so it can be \<^verbatim>\<open>undefined\<close>.
  \<open>proposals\<close> is only ever read at members of \<open>free\<close>, which are keys of the source's Map
  on every input (lemmas \<open>sp_cursor_keys\<close> and \<open>ep_cursor_keys\<close> below), so it is a function
  here, \<open>0\<close> elsewhere.
\<close>

record state =
  engaged :: "(jsval \<times> nat) list"
  free :: "nat list"
  proposals :: "nat \<Rightarrow> nat"

definition initial :: "nat list \<Rightarrow> state" where
  "initial proposers = \<lparr> engaged = [], free = new_Set proposers, proposals = (\<lambda>_. 0) \<rparr>"

subsection \<open>solveStudentsPropose\<close>

text \<open>
  One iteration of the \<^verbatim>\<open>while\<close> loop for \<open>student = Array.from(free)[0]\<close>. The engine is
  returned as the iteration leaves it, also when the iteration throws.
\<close>

definition sp_iteration :: "engine \<Rightarrow> state \<Rightarrow> nat \<Rightarrow> (error + state) \<times> engine" where
  "sp_iteration this st student =
     (let proposalIndex = proposals st student in
      if proposalIndex \<ge> engine_n this
      then (Inr (st\<lparr>free := Set_delete (free st) student\<rparr>), this)
      else if student \<ge> length (studentPrefs this) then (Inl TypeError, this)
      else
        let establishment = js_nth (studentPrefs this ! student) proposalIndex;
            this' = this\<lparr>proposalCounts := js_incr_at (proposalCounts this) student\<rparr>;
            st' = st\<lparr>proposals := (proposals st)(student := proposalIndex + 1)\<rparr>
        in case map_of (engaged st) establishment of
             None \<Rightarrow>
               (Inr (st'\<lparr>engaged := Map_set (engaged st) establishment student,
                         free := Set_delete (free st) student\<rparr>), this')
           | Some currentStudent \<Rightarrow>
               (case establishment of
                  None \<Rightarrow> (Inl TypeError, this')
                | Some e \<Rightarrow>
                    if e \<ge> length (establishmentPrefs this) then (Inl TypeError, this')
                    else
                      let currentRank = indexOf (establishmentPrefs this ! e) (Some currentStudent);
                          newRank = indexOf (establishmentPrefs this ! e) (Some student)
                      in if newRank < currentRank
                         then (Inr (st'\<lparr>engaged := Map_set (engaged st) establishment student,
                                       free := Set_add (Set_delete (free st) student)
                                                 currentStudent\<rparr>), this')
                         else (Inr st', this')))"

subsection \<open>solveEstablishmentsPropose\<close>

text \<open>One iteration of the \<^verbatim>\<open>while\<close> loop for \<open>establishment = Array.from(free)[0]\<close>.
  This method does not touch \<^verbatim>\<open>this.proposalCounts\<close>.\<close>

definition ep_iteration :: "engine \<Rightarrow> state \<Rightarrow> nat \<Rightarrow> error + state" where
  "ep_iteration this st establishment =
     (let proposalIndex = proposals st establishment in
      if proposalIndex \<ge> engine_n this
      then Inr (st\<lparr>free := Set_delete (free st) establishment\<rparr>)
      else if establishment \<ge> length (establishmentPrefs this) then Inl TypeError
      else
        let student = js_nth (establishmentPrefs this ! establishment) proposalIndex;
            st' = st\<lparr>proposals := (proposals st)(establishment := proposalIndex + 1)\<rparr>
        in case map_of (engaged st) student of
             None \<Rightarrow>
               Inr (st'\<lparr>engaged := Map_set (engaged st) student establishment,
                        free := Set_delete (free st) establishment\<rparr>)
           | Some currentEstablishment \<Rightarrow>
               (case student of
                  None \<Rightarrow> Inl TypeError
                | Some s \<Rightarrow>
                    if s \<ge> length (studentPrefs this) then Inl TypeError
                    else
                      let currentRank = indexOf (studentPrefs this ! s) (Some currentEstablishment);
                          newRank = indexOf (studentPrefs this ! s) (Some establishment)
                      in if newRank < currentRank
                         then Inr (st'\<lparr>engaged := Map_set (engaged st) student establishment,
                                      free := Set_add (Set_delete (free st) establishment)
                                                currentEstablishment\<rparr>)
                         else Inr st'))"

subsection \<open>The iteration common to both directions\<close>

text \<open>
  The two loop bodies are the same text with the sides exchanged. \<open>gs_iteration\<close> is that
  text over the proposers' lists \<open>pp\<close> and the receivers' lists \<open>rp\<close>; the lemmas
  \<open>sp_iteration_gs\<close> and \<open>ep_iteration_gs\<close> relate the two methods to it.
\<close>

definition gs_iteration ::
  "nat list list \<Rightarrow> nat list list \<Rightarrow> nat \<Rightarrow> state \<Rightarrow> nat \<Rightarrow> error + state" where
  "gs_iteration pp rp k st p =
     (let i = proposals st p in
      if i \<ge> k then Inr (st\<lparr>free := Set_delete (free st) p\<rparr>)
      else if p \<ge> length pp then Inl TypeError
      else
        let r = js_nth (pp ! p) i;
            st' = st\<lparr>proposals := (proposals st)(p := i + 1)\<rparr>
        in case map_of (engaged st) r of
             None \<Rightarrow>
               Inr (st'\<lparr>engaged := Map_set (engaged st) r p, free := Set_delete (free st) p\<rparr>)
           | Some c \<Rightarrow>
               (case r of
                  None \<Rightarrow> Inl TypeError
                | Some q \<Rightarrow>
                    if q \<ge> length rp then Inl TypeError
                    else if indexOf (rp ! q) (Some p) < indexOf (rp ! q) (Some c)
                         then Inr (st'\<lparr>engaged := Map_set (engaged st) r p,
                                      free := Set_add (Set_delete (free st) p) c\<rparr>)
                         else Inr st'))"

lemma sp_iteration_gs:
  "fst (sp_iteration this st s) =
     gs_iteration (studentPrefs this) (establishmentPrefs this) (engine_n this) st s"
  by (simp add: sp_iteration_def gs_iteration_def Let_def split: option.splits)

lemma ep_iteration_gs:
  "ep_iteration this st e =
     gs_iteration (establishmentPrefs this) (studentPrefs this) (engine_n this) st e"
  by (simp add: ep_iteration_def gs_iteration_def Let_def split: option.splits)

lemma sp_iteration_engine:
  "snd (sp_iteration this st s) = this \<or>
   snd (sp_iteration this st s) =
     this\<lparr>proposalCounts := js_incr_at (proposalCounts this) s\<rparr>"
  by (simp add: sp_iteration_def Let_def split: option.splits)

subsection \<open>The loops\<close>

text \<open>
  Every iteration that does not drop an exhausted proposer advances that proposer's cursor,
  which stays below \<open>k\<close>; \<open>work\<close> counts the proposals that the proposers still
  in play can make. This is the variant of both \<^verbatim>\<open>while\<close> loops, on every input.
\<close>

definition work :: "nat \<Rightarrow> state \<Rightarrow> nat" where
  "work k st = (\<Sum>p \<in> set (free st) \<union> snd ` set (engaged st). k - proposals st p)"

lemma set_Set_delete [simp]: "set (Set_delete xs x) = set xs - {x}"
  by (simp add: Set_delete_def)

lemma set_Set_add [simp]: "set (Set_add xs x) = insert x (set xs)"
  by (auto simp: Set_add_def)

lemma length_Set_delete: "x \<in> set xs \<Longrightarrow> length (Set_delete xs x) < length xs"
  unfolding Set_delete_def by (induction xs) (auto simp: less_Suc_eq_le length_removeAll_less_eq)

lemma map_of_Map_set [simp]: "map_of (Map_set m k v) = (map_of m)(k \<mapsto> v)"
  by (induction m k v rule: Map_set.induct) auto

lemma values_Map_set: "snd ` set (Map_set m k v) \<subseteq> insert v (snd ` set m)"
  by (induction m k v rule: Map_set.induct) auto

lemma values_Map_setD: "(a, b) \<in> set (Map_set m k v) \<Longrightarrow> b = v \<or> b \<in> snd ` set m"
  using values_Map_set[of m k v] by force

lemma map_of_value: "map_of m k = Some c \<Longrightarrow> c \<in> snd ` set m"
  by (metis map_of_SomeD snd_conv image_eqI)

lemma work_less:
  assumes "finite S" "S' \<subseteq> S" "p \<in> S" "pr p < k"
  shows "(\<Sum>x\<in>S'. k - (pr(p := Suc (pr p))) x) < (\<Sum>x\<in>S. k - pr x)"
proof -
  have "(\<Sum>x\<in>S'. k - (pr(p := Suc (pr p))) x) \<le> (\<Sum>x\<in>S. k - (pr(p := Suc (pr p))) x)"
    using assms(1,2) by (intro sum_mono2) auto
  also have "\<dots> < (\<Sum>x\<in>S. k - pr x)"
    using assms by (intro sum_strict_mono_ex1) auto
  finally show ?thesis .
qed

lemma gs_iteration_decreases:
  assumes "gs_iteration pp rp k st p = Inr st'" and "p \<in> set (free st)"
  shows "work k st' < work k st \<or> (work k st' = work k st \<and> length (free st') < length (free st))"
proof (cases "proposals st p \<ge> k")
  case True
  then have st': "st' = st\<lparr>free := Set_delete (free st) p\<rparr>"
    using assms(1) by (simp add: gs_iteration_def)
  have "work k st' \<le> work k st"
    unfolding work_def st' by (simp, intro sum_mono2) auto
  moreover have "length (free st') < length (free st)"
    using assms(2) by (simp add: st' length_Set_delete)
  ultimately show ?thesis by linarith
next
  case False
  let ?S = "set (free st) \<union> snd ` set (engaged st)"
  have fin: "finite ?S" by simp
  have pS: "p \<in> ?S" using assms(2) by simp
  have lt: "proposals st p < k" using False by simp
  have *: "proposals st' = (proposals st)(p := Suc (proposals st p))"
       "set (free st') \<union> snd ` set (engaged st') \<subseteq> ?S"
    using assms False
    by (auto simp: gs_iteration_def Let_def dest: map_of_value values_Map_setD
             split: if_splits option.splits)
  have "work k st' < work k st"
    unfolding work_def *(1) by (rule work_less[where pr="proposals st" and p=p and k=k, OF fin *(2) pS lt])
  then show ?thesis by simp
qed

text \<open>\<^verbatim>\<open>while (free.size > 0) { const student = Array.from(free)[0]; ... }\<close>\<close>

function sp_loop :: "engine \<Rightarrow> state \<Rightarrow> (error + state) \<times> engine" where
  "sp_loop this st =
     (case free st of
        [] \<Rightarrow> (Inr st, this)
      | student # _ \<Rightarrow>
          (case sp_iteration this st student of
             (Inl err, this') \<Rightarrow> (Inl err, this')
           | (Inr st', this') \<Rightarrow> sp_loop this' st'))"
  by pat_completeness auto

function ep_loop :: "engine \<Rightarrow> state \<Rightarrow> error + state" where
  "ep_loop this st =
     (case free st of
        [] \<Rightarrow> Inr st
      | establishment # _ \<Rightarrow>
          (case ep_iteration this st establishment of
             Inl err \<Rightarrow> Inl err
           | Inr st' \<Rightarrow> ep_loop this st'))"
  by pat_completeness auto

lemma sp_iteration_n: "engine_n (snd (sp_iteration this st s)) = engine_n this"
  using sp_iteration_engine[of this st s] by auto

lemma sp_iteration_decreases:
  assumes "sp_iteration this st s = (Inr st', this')" and "free st = s # rest"
  shows "work (engine_n this') st' < work (engine_n this) st \<or>
         (work (engine_n this') st' = work (engine_n this) st \<and> length (free st') < length (free st))"
proof -
  have "engine_n this' = engine_n this"
    using sp_iteration_n[of this st s] assms(1) by simp
  moreover have "gs_iteration (studentPrefs this) (establishmentPrefs this) (engine_n this) st s = Inr st'"
    using sp_iteration_gs[of this st s] assms(1) by simp
  ultimately show ?thesis
    using gs_iteration_decreases[of _ _ "engine_n this" st s st'] assms(2) by simp
qed

termination sp_loop
proof (relation "measures [\<lambda>(this, st). work (engine_n this) st, \<lambda>(this, st). length (free st)]")
  show "wf (measures [\<lambda>(this, st). work (engine_n this) st, \<lambda>(this, st). length (free st)])"
    by simp
next
  fix this :: engine and st :: state and student rest x st' this'
  assume "free st = student # rest" "(x, this') = sp_iteration this st student" "x = Inr st'"
  then have "sp_iteration this st student = (Inr st', this')" by simp
  from sp_iteration_decreases[OF this \<open>free st = student # rest\<close>]
  show "((this', st'), this, st)
       \<in> measures [\<lambda>(this, st). work (engine_n this) st, \<lambda>(this, st). length (free st)]"
    by auto
qed

termination ep_loop
proof (relation "measures [\<lambda>(this, st). work (engine_n this) st, \<lambda>(this, st). length (free st)]")
  show "wf (measures [\<lambda>(this, st). work (engine_n this) st, \<lambda>(this, st). length (free st)])"
    by simp
next
  fix this :: engine and st :: state and establishment rest st'
  assume "free st = establishment # rest" "ep_iteration this st establishment = Inr st'"
  then show "((this, st'), this, st)
       \<in> measures [\<lambda>(this, st). work (engine_n this) st, \<lambda>(this, st). length (free st)]"
    using gs_iteration_decreases[of _ _ "engine_n this" st establishment st']
    by (auto simp: ep_iteration_gs)
qed

text \<open>The defining equations unfold forever as rewrite rules; they are applied by hand.\<close>

declare sp_loop.simps [simp del] ep_loop.simps [simp del]

text \<open>
  After the loop the method inverts \<open>engaged\<close> entry by entry, in insertion order, and
  returns a copy of the counters it has incremented in place.
\<close>

definition invert :: "(jsval \<times> nat) list \<Rightarrow> matching" where
  "invert eng = foldl (\<lambda>m (establishment, student). Map_set m (Some student) establishment) [] eng"

definition solveStudentsPropose ::
  "engine \<Rightarrow> (error + matching \<times> jsnum option list) \<times> engine" where
  "solveStudentsPropose this =
     (case sp_loop this (initial (students this)) of
        (Inl err, this') \<Rightarrow> (Inl err, this')
      | (Inr st, this') \<Rightarrow> (Inr (invert (engaged st), proposalCounts this'), this'))"

text \<open>
  The other method returns \<open>engaged\<close> itself, whose keys are students and whose values are
  establishments, and the Map of cursors: one entry per distinct establishment, in the order
  of \<^verbatim>\<open>this.establishments\<close>.
\<close>

definition solveEstablishmentsPropose ::
  "engine \<Rightarrow> error + matching \<times> (nat \<times> nat) list" where
  "solveEstablishmentsPropose this =
     (case ep_loop this (initial (establishments this)) of
        Inl err \<Rightarrow> Inl err
      | Inr st \<Rightarrow>
          Inr (map (\<lambda>(student, establishment). (student, Some establishment)) (engaged st),
               map (\<lambda>e. (e, proposals st e)) (new_Set (establishments this))))"

subsection \<open>verifyStability\<close>

text \<open>The inner \<^verbatim>\<open>for\<close> loop over \<open>prefRank\<close>, for the student \<open>s\<close> whose list is \<open>row\<close>.\<close>

fun verify_inner ::
  "engine \<Rightarrow> matching \<Rightarrow> nat \<Rightarrow> nat list \<Rightarrow> nat list \<Rightarrow> (nat \<times> nat) list
     \<Rightarrow> error + (nat \<times> nat) list" where
  "verify_inner this m s row [] blockingPairs = Inr blockingPairs"
| "verify_inner this m s row (prefRank # rest) blockingPairs =
     (let preferredE = row ! prefRank in
      case find_key m preferredE of
        None \<Rightarrow> verify_inner this m s row rest blockingPairs
      | Some matchedS \<Rightarrow>
          if preferredE \<ge> length (establishmentPrefs this) then Inl TypeError
          else
            let currentRankE = indexOf (establishmentPrefs this ! preferredE) (Some matchedS);
                newRankE = indexOf (establishmentPrefs this ! preferredE) (Some s)
            in if newRankE < currentRankE
               then verify_inner this m s row rest (blockingPairs @ [(s, preferredE)])
               else verify_inner this m s row rest blockingPairs)"

text \<open>The outer loop over \<open>s\<close>. \<open>prefRank\<close> stays below \<open>currentRankS\<close>, an index of the row,
  so \<^verbatim>\<open>this.studentPrefs[s][prefRank]\<close> is always an element.\<close>

fun verify_outer ::
  "engine \<Rightarrow> matching \<Rightarrow> nat list \<Rightarrow> (nat \<times> nat) list \<Rightarrow> error + (nat \<times> nat) list" where
  "verify_outer this m [] blockingPairs = Inr blockingPairs"
| "verify_outer this m (s # rest) blockingPairs =
     (let currentE = Map_get m (Some s) in
      if s \<ge> length (studentPrefs this) then Inl TypeError
      else
        let currentRankS = indexOf (studentPrefs this ! s) currentE in
        case verify_inner this m s (studentPrefs this ! s) [0..<nat currentRankS] blockingPairs of
          Inl err \<Rightarrow> Inl err
        | Inr blockingPairs' \<Rightarrow> verify_outer this m rest blockingPairs')"

definition verifyStability :: "engine \<Rightarrow> matching \<Rightarrow> error + bool \<times> (nat \<times> nat) list" where
  "verifyStability this m =
     (case verify_outer this m [0..<engine_n this] [] of
        Inl err \<Rightarrow> Inl err
      | Inr blockingPairs \<Rightarrow> Inr (blockingPairs = [], blockingPairs))"

section \<open>SatisfactionAnalyzer\<close>

record analyzer =
  an_matching :: matching
  an_studentPrefs :: "nat list list"
  an_establishmentPrefs :: "nat list list"
  an_n :: nat

definition new_analyzer :: "matching \<Rightarrow> nat list list \<Rightarrow> nat list list \<Rightarrow> analyzer" where
  "new_analyzer m sprefs eprefs =
     \<lparr> an_matching = m, an_studentPrefs = sprefs, an_establishmentPrefs = eprefs,
       an_n = length sprefs \<rparr>"

text \<open>\<^verbatim>\<open>isStudent ? matching.get(i) : Array.from(matching.entries()).find(...)?.[0]\<close>\<close>

definition partner :: "matching \<Rightarrow> bool \<Rightarrow> nat \<Rightarrow> jsval" where
  "partner m isStudent i = (if isStudent then Map_get m (Some i) else find_key m i)"

text \<open>\<^verbatim>\<open>prefs[i].indexOf(partner)\<close>, which throws when \<open>prefs\<close> has no row \<open>i\<close>.\<close>

definition rank_at :: "nat list list \<Rightarrow> matching \<Rightarrow> bool \<Rightarrow> nat \<Rightarrow> error + int" where
  "rank_at prefs m isStudent i =
     (if i < length prefs then Inr (indexOf (prefs ! i) (partner m isStudent i))
      else Inl TypeError)"

fun averageRank_loop ::
  "nat list list \<Rightarrow> matching \<Rightarrow> bool \<Rightarrow> nat list \<Rightarrow> int \<Rightarrow> error + int" where
  "averageRank_loop prefs m isStudent [] totalRank = Inr totalRank"
| "averageRank_loop prefs m isStudent (i # rest) totalRank =
     (case rank_at prefs m isStudent i of
        Inl err \<Rightarrow> Inl err
      | Inr rank \<Rightarrow> averageRank_loop prefs m isStudent rest (totalRank + rank))"

definition averageRank ::
  "analyzer \<Rightarrow> nat list list \<Rightarrow> matching \<Rightarrow> bool \<Rightarrow> error + jsnum" where
  "averageRank an prefs m isStudent =
     (case averageRank_loop prefs m isStudent [0..<an_n an] 0 of
        Inl err \<Rightarrow> Inl err
      | Inr totalRank \<Rightarrow> Inr (jdiv (of_rank totalRank) (Fin (of_nat (an_n an)))))"

fun topK_loop ::
  "nat list list \<Rightarrow> matching \<Rightarrow> int \<Rightarrow> bool \<Rightarrow> nat list \<Rightarrow> nat \<Rightarrow> error + nat" where
  "topK_loop prefs m k isStudent [] count = Inr count"
| "topK_loop prefs m k isStudent (i # rest) count =
     (case rank_at prefs m isStudent i of
        Inl err \<Rightarrow> Inl err
      | Inr rank \<Rightarrow>
          topK_loop prefs m k isStudent rest (if rank < k then count + 1 else count))"

definition topKPercentage ::
  "analyzer \<Rightarrow> nat list list \<Rightarrow> matching \<Rightarrow> int \<Rightarrow> bool \<Rightarrow> error + jsnum" where
  "topKPercentage an prefs m k isStudent =
     (case topK_loop prefs m k isStudent [0..<an_n an] 0 of
        Inl err \<Rightarrow> Inl err
      | Inr count \<Rightarrow>
          Inr (jmul (jdiv (Fin (of_nat count)) (Fin (of_nat (an_n an)))) (Fin 100)))"

text \<open>\<^verbatim>\<open>const score = 100 * (1 - rank / (this.n - 1))\<close>\<close>

definition score :: "nat \<Rightarrow> int \<Rightarrow> jsnum" where
  "score k rank =
     jmul (Fin 100) (jsub (Fin 1) (jdiv (of_rank rank) (Fin (of_int (int k - 1)))))"

fun satisfaction_loop ::
  "nat \<Rightarrow> nat list list \<Rightarrow> matching \<Rightarrow> bool \<Rightarrow> nat list \<Rightarrow> jsnum \<Rightarrow> error + jsnum" where
  "satisfaction_loop k prefs m isStudent [] totalScore = Inr totalScore"
| "satisfaction_loop k prefs m isStudent (i # rest) totalScore =
     (case rank_at prefs m isStudent i of
        Inl err \<Rightarrow> Inl err
      | Inr rank \<Rightarrow>
          satisfaction_loop k prefs m isStudent rest (jadd totalScore (score k rank)))"

definition satisfactionScore ::
  "analyzer \<Rightarrow> nat list list \<Rightarrow> matching \<Rightarrow> bool \<Rightarrow> error + jsnum" where
  "satisfactionScore an prefs m isStudent =
     (case satisfaction_loop (an_n an) prefs m isStudent [0..<an_n an] (Fin 0) of
        Inl err \<Rightarrow> Inl err
      | Inr totalScore \<Rightarrow> Inr (jdiv totalScore (Fin (of_nat (an_n an)))))"

text \<open>
  \<^verbatim>\<open>const e = matching.get(s); ... this.establishmentPrefs[e].indexOf(s)\<close>: an absent
  partner or one that is no row of \<open>establishmentPrefs\<close> throws.
\<close>

fun egalitarian_loop :: "analyzer \<Rightarrow> matching \<Rightarrow> nat list \<Rightarrow> int \<Rightarrow> error + int" where
  "egalitarian_loop an m [] cost = Inr cost"
| "egalitarian_loop an m (s # rest) cost =
     (if s \<ge> length (an_studentPrefs an) then Inl TypeError
      else
        case Map_get m (Some s) of
          None \<Rightarrow> Inl TypeError
        | Some e \<Rightarrow>
            if e \<ge> length (an_establishmentPrefs an) then Inl TypeError
            else
              let studentRank = indexOf (an_studentPrefs an ! s) (Some e);
                  estabRank = indexOf (an_establishmentPrefs an ! e) (Some s)
              in egalitarian_loop an m rest (cost + (studentRank + estabRank)))"

definition egalitarianCost :: "analyzer \<Rightarrow> matching \<Rightarrow> error + int" where
  "egalitarianCost an m = egalitarian_loop an m [0..<an_n an] 0"

definition sexEquality :: "analyzer \<Rightarrow> matching \<Rightarrow> error + jsnum" where
  "sexEquality an m =
     (case satisfactionScore an (an_studentPrefs an) m True of
        Inl err \<Rightarrow> Inl err
      | Inr studentSat \<Rightarrow>
          (case satisfactionScore an (an_establishmentPrefs an) m False of
             Inl err \<Rightarrow> Inl err
           | Inr estabSat \<Rightarrow> Inr (jabs (jsub studentSat estabSat))))"

record side_report =
  avgRank :: jsnum
  top1 :: jsnum
  top3 :: jsnum
  satisfaction :: jsnum

record overall_report =
  egalitarian :: int
  equality :: jsnum

record report =
  students_report :: side_report
  establishments_report :: side_report
  overall :: overall_report

definition side_analysis ::
  "analyzer \<Rightarrow> nat list list \<Rightarrow> matching \<Rightarrow> bool \<Rightarrow> error + side_report" where
  "side_analysis an prefs m isStudent =
     (case averageRank an prefs m isStudent of
        Inl err \<Rightarrow> Inl err
      | Inr a \<Rightarrow>
     (case topKPercentage an prefs m 1 isStudent of
        Inl err \<Rightarrow> Inl err
      | Inr t1 \<Rightarrow>
     (case topKPercentage an prefs m 3 isStudent of
        Inl err \<Rightarrow> Inl err
      | Inr t3 \<Rightarrow>
     (case satisfactionScore an prefs m isStudent of
        Inl err \<Rightarrow> Inl err
      | Inr sat \<Rightarrow> Inr \<lparr> avgRank = a, top1 = t1, top3 = t3, satisfaction = sat \<rparr>))))"

definition fullAnalysis :: "analyzer \<Rightarrow> matching \<Rightarrow> error + report" where
  "fullAnalysis an m =
     (case side_analysis an (an_studentPrefs an) m True of
        Inl err \<Rightarrow> Inl err
      | Inr sr \<Rightarrow>
     (case side_analysis an (an_establishmentPrefs an) m False of
        Inl err \<Rightarrow> Inl err
      | Inr er \<Rightarrow>
     (case egalitarianCost an m of
        Inl err \<Rightarrow> Inl err
      | Inr cost \<Rightarrow>
     (case sexEquality an m of
        Inl err \<Rightarrow> Inl err
      | Inr eq \<Rightarrow>
          Inr \<lparr> students_report = sr, establishments_report = er,
                overall = \<lparr> egalitarian = cost, equality = eq \<rparr> \<rparr>))))"

section \<open>Concrete instances\<close>

text \<open>A solve method returns a matching or throws; this reads the matching off the result.\<close>

definition returned_matching :: "error + matching \<times> 'a \<Rightarrow> matching" where
  "returned_matching r = (case r of Inl _ \<Rightarrow> [] | Inr (m, _) \<Rightarrow> m)"

text \<open>The scenario with \<open>n = 2\<close>: both students list the establishments as \<open>[0, 1]\<close>, both
  establishments list the students as \<open>[1, 0]\<close>.\<close>

definition scenario :: engine where
  "scenario = constructor [0, 1] [0, 1] [[0, 1], [0, 1]] [[1, 0], [1, 0]]"

definition scenario_matching :: matching where
  "scenario_matching = [(Some 1, Some 0), (Some 0, Some 1)]"

definition scenario_analyzer :: analyzer where
  "scenario_analyzer =
     new_analyzer scenario_matching (studentPrefs scenario) (establishmentPrefs scenario)"

text \<open>Three students and three establishments whose first choices are mutual: student 0
  and establishment 1, student 1 and establishment 2, student 2 and establishment 0.\<close>

definition triangle :: engine where
  "triangle =
     constructor [0, 1, 2] [0, 1, 2]
       [[1, 0, 2], [2, 0, 1], [0, 1, 2]]
       [[2, 0, 1], [0, 1, 2], [1, 2, 0]]"

text \<open>Two students and two establishments with two stable matchings: each student's first
  choice ranks that student last. \<open>contest_other\<close> gives every establishment its first
  choice.\<close>

definition contest :: engine where
  "contest = constructor [0, 1] [0, 1] [[0, 1], [1, 0]] [[1, 0], [0, 1]]"

definition contest_other :: matching where
  "contest_other = [(Some 0, Some 1), (Some 1, Some 0)]"

text \<open>A partial matching on \<open>triangle\<close>: student 2 and establishment 0 are unmatched.\<close>

definition triangle_partial :: matching where
  "triangle_partial = [(Some 0, Some 2), (Some 1, Some 1)]"

text \<open>Malformed instances: both students list establishment 0 twice and establishment 1
  never; and both students list one establishment only.\<close>

definition duplicated :: engine where
  "duplicated = constructor [0, 1] [0, 1] [[0, 0], [0, 0]] [[0, 1], [0, 1]]"

definition shortened :: engine where
  "shortened = constructor [0, 1] [0, 1] [[0], [0]] [[0, 1], [0, 1]]"

text \<open>The trivial instance with \<open>n = 1\<close> and its only matching.\<close>

definition trivial_analyzer :: analyzer where
  "trivial_analyzer = new_analyzer [(Some 0, Some 0)] [[0]] [[0]]"

section \<open>Valid instances and the invariant of deferred acceptance\<close>

subsection \<open>Preference lists\<close>

definition valid_side :: "nat \<Rightarrow> nat list \<Rightarrow> bool" where
  "valid_side k xs = (distinct xs \<and> length xs = k \<and> (\<forall>x\<in>set xs. x < k))"

definition valid_prefs :: "nat \<Rightarrow> nat list list \<Rightarrow> bool" where
  "valid_prefs k prefs = (length prefs = k \<and> (\<forall>row\<in>set prefs. valid_side k row))"

definition valid_instance :: "engine \<Rightarrow> bool" where
  "valid_instance this =
     (engine_n this = length (students this)
      \<and> valid_side (engine_n this) (students this)
      \<and> valid_side (engine_n this) (establishments this)
      \<and> valid_prefs (engine_n this) (studentPrefs this)
      \<and> valid_prefs (engine_n this) (establishmentPrefs this))"

lemma valid_side_set: "valid_side k xs \<Longrightarrow> set xs = {..<k}"
proof -
  assume v: "valid_side k xs"
  then have "card (set xs) = k" by (simp add: valid_side_def distinct_card)
  moreover have "set xs \<subseteq> {..<k}" using v by (auto simp: valid_side_def)
  ultimately show ?thesis by (simp add: card_subset_eq)
qed

lemma first_index_less: "x \<in> set xs \<Longrightarrow> first_index xs x < length xs"
  by (induction xs) auto

lemma nth_first_index: "x \<in> set xs \<Longrightarrow> xs ! first_index xs x = x"
  by (induction xs) auto

lemma first_index_nth: "distinct xs \<Longrightarrow> i < length xs \<Longrightarrow> first_index xs (xs ! i) = i"
proof (induction xs arbitrary: i)
  case Nil
  then show ?case by simp
next
  case (Cons y ys)
  then show ?case by (cases i) auto
qed

lemma first_index_inj:
  "x \<in> set xs \<Longrightarrow> y \<in> set xs \<Longrightarrow> first_index xs x = first_index xs y \<Longrightarrow> x = y"
  by (metis nth_first_index)

lemma indexOf_member: "x \<in> set xs \<Longrightarrow> indexOf xs (Some x) = int (first_index xs x)"
  by (simp add: indexOf_def)

lemma valid_prefs_row: "valid_prefs k prefs \<Longrightarrow> p < k \<Longrightarrow> valid_side k (prefs ! p)"
  by (simp add: valid_prefs_def)

lemma valid_prefs_nth:
  "valid_prefs k prefs \<Longrightarrow> p < k \<Longrightarrow> i < k \<Longrightarrow> prefs ! p ! i < k"
  using valid_prefs_row[of k prefs p] by (simp add: valid_side_def)

lemma valid_prefs_member:
  "valid_prefs k prefs \<Longrightarrow> p < k \<Longrightarrow> q < k \<Longrightarrow> q \<in> set (prefs ! p)"
  using valid_side_set[OF valid_prefs_row, of k prefs p] by simp

lemma valid_prefs_first_index_nth:
  "valid_prefs k prefs \<Longrightarrow> p < k \<Longrightarrow> i < k \<Longrightarrow> first_index (prefs ! p) (prefs ! p ! i) = i"
  using valid_prefs_row[of k prefs p] by (simp add: valid_side_def first_index_nth)

lemma valid_prefs_nth_first_index:
  "valid_prefs k prefs \<Longrightarrow> p < k \<Longrightarrow> q < k \<Longrightarrow> prefs ! p ! first_index (prefs ! p) q = q"
  by (simp add: nth_first_index valid_prefs_member)

lemma valid_prefs_first_index_less:
  "valid_prefs k prefs \<Longrightarrow> p < k \<Longrightarrow> q < k \<Longrightarrow> first_index (prefs ! p) q < k"
  using first_index_less[OF valid_prefs_member, of k prefs p q] valid_prefs_row[of k prefs p]
  by (simp add: valid_side_def)

lemma valid_prefs_first_index_inj:
  "valid_prefs k prefs \<Longrightarrow> p < k \<Longrightarrow> q < k \<Longrightarrow> q' < k \<Longrightarrow>
   first_index (prefs ! p) q = first_index (prefs ! p) q' \<Longrightarrow> q = q'"
  by (metis valid_prefs_nth_first_index)

subsection \<open>The invariant of the loops\<close>

text \<open>
  Over the set \<open>F\<close> of free proposers, the map \<open>h\<close> from receivers to the proposers they
  hold, and the cursors \<open>A\<close>: a held proposer is not free and is held by the receiver it
  proposed to last; every proposer is free or held; every receiver that a proposer has
  already proposed to holds somebody it likes at least as much.
\<close>

definition abs_inv ::
  "nat list list \<Rightarrow> nat list list \<Rightarrow> nat \<Rightarrow> nat set \<Rightarrow> (jsval \<rightharpoonup> nat) \<Rightarrow> (nat \<Rightarrow> nat) \<Rightarrow> bool" where
  "abs_inv pp rp k F h A =
     (F \<subseteq> {..<k}
      \<and> (\<forall>r p. h r = Some p \<longrightarrow>
            p < k \<and> p \<notin> F \<and> 0 < A p \<and> r = Some (pp ! p ! (A p - 1)))
      \<and> (\<forall>p<k. p \<in> F \<or> (\<exists>r. h r = Some p))
      \<and> (\<forall>p<k. A p \<le> k)
      \<and> (\<forall>p<k. \<forall>i<A p. \<exists>c. h (Some (pp ! p ! i)) = Some c
            \<and> first_index (rp ! (pp ! p ! i)) c \<le> first_index (rp ! (pp ! p ! i)) p))"

lemma abs_inv_held:
  "abs_inv pp rp k F h A \<Longrightarrow> h r = Some p \<Longrightarrow>
     p < k \<and> p \<notin> F \<and> 0 < A p \<and> r = Some (pp ! p ! (A p - 1))"
  unfolding abs_inv_def by blast

lemma abs_inv_proposed:
  "abs_inv pp rp k F h A \<Longrightarrow> p < k \<Longrightarrow> i < A p \<Longrightarrow>
     \<exists>c. h (Some (pp ! p ! i)) = Some c
        \<and> first_index (rp ! (pp ! p ! i)) c \<le> first_index (rp ! (pp ! p ! i)) p"
  unfolding abs_inv_def by blast

lemma abs_inv_cursor: "abs_inv pp rp k F h A \<Longrightarrow> p < k \<Longrightarrow> A p \<le> k"
  unfolding abs_inv_def by blast

lemma abs_inv_free: "abs_inv pp rp k F h A \<Longrightarrow> p \<in> F \<Longrightarrow> p < k"
  unfolding abs_inv_def by blast

lemma abs_inv_covered: "abs_inv pp rp k F h A \<Longrightarrow> p < k \<Longrightarrow> p \<in> F \<or> (\<exists>r. h r = Some p)"
  unfolding abs_inv_def by blast

text \<open>A free proposer has not exhausted its list: otherwise all \<open>k\<close> receivers would hold
  \<open>k\<close> different proposers, none of them this one.\<close>

lemma abs_inv_not_exhausted:
  assumes inv: "abs_inv pp rp k F h A" and pp: "valid_prefs k pp" and p: "p \<in> F"
  shows "A p < k"
proof (rule ccontr)
  assume "\<not> A p < k"
  have pk: "p < k" using abs_inv_free[OF inv p] .
  then have Ap: "A p = k" using abs_inv_cursor[OF inv pk] \<open>\<not> A p < k\<close> by simp
  have all_held: "\<exists>c. h (Some q) = Some c" if "q < k" for q
  proof -
    let ?i = "first_index (pp ! p) q"
    have "?i < A p" using valid_prefs_first_index_less[OF pp pk that] Ap by simp
    from abs_inv_proposed[OF inv pk this] show ?thesis
      by (auto simp: valid_prefs_nth_first_index[OF pp pk that])
  qed
  define f where "f q = the (h (Some q))" for q
  have f: "h (Some q) = Some (f q)" if "q < k" for q
    using all_held[OF that] by (auto simp: f_def)
  have "inj_on f {..<k}"
  proof (rule inj_onI)
    fix q q' assume "q \<in> {..<k}" "q' \<in> {..<k}" "f q = f q'"
    then have "h (Some q) = Some (f q)" "h (Some q') = Some (f q)" using f by auto
    from abs_inv_held[OF inv this(1)] abs_inv_held[OF inv this(2)] show "q = q'" by simp
  qed
  moreover have "f ` {..<k} \<subseteq> {..<k} - {p}"
  proof
    fix c assume "c \<in> f ` {..<k}"
    then obtain q where "q < k" "c = f q" by auto
    with abs_inv_held[OF inv f[OF \<open>q < k\<close>]] p show "c \<in> {..<k} - {p}" by auto
  qed
  ultimately have "card {..<k} \<le> card ({..<k} - {p})"
    by (intro card_inj_on_le) auto
  then show False using pk by simp
qed

lemma abs_invI:
  assumes "F \<subseteq> {..<k}"
    and "\<And>r p. h r = Some p \<Longrightarrow> p < k \<and> p \<notin> F \<and> 0 < A p \<and> r = Some (pp ! p ! (A p - 1))"
    and "\<And>p. p < k \<Longrightarrow> p \<in> F \<or> (\<exists>r. h r = Some p)"
    and "\<And>p. p < k \<Longrightarrow> A p \<le> k"
    and "\<And>p i. p < k \<Longrightarrow> i < A p \<Longrightarrow> \<exists>c. h (Some (pp ! p ! i)) = Some c
            \<and> first_index (rp ! (pp ! p ! i)) c \<le> first_index (rp ! (pp ! p ! i)) p"
  shows "abs_inv pp rp k F h A"
  unfolding abs_inv_def
proof (intro conjI)
  show "F \<subseteq> {..<k}" by (rule assms(1))
  show "\<forall>r p. h r = Some p \<longrightarrow> p < k \<and> p \<notin> F \<and> 0 < A p \<and> r = Some (pp ! p ! (A p - 1))"
    using assms(2) by (intro allI impI)
  show "\<forall>p<k. p \<in> F \<or> (\<exists>r. h r = Some p)"
    using assms(3) by (intro allI impI)
  show "\<forall>p<k. A p \<le> k"
    using assms(4) by (intro allI impI)
  show "\<forall>p<k. \<forall>i<A p. \<exists>c. h (Some (pp ! p ! i)) = Some c
            \<and> first_index (rp ! (pp ! p ! i)) c \<le> first_index (rp ! (pp ! p ! i)) p"
    using assms(5) by (intro allI impI)
qed

lemma abs_inv_accept_free:
  assumes inv: "abs_inv pp rp k F h A" and pp: "valid_prefs k pp" and p: "p \<in> F"
    and q: "q = pp ! p ! A p" and none: "h (Some q) = None"
  shows "abs_inv pp rp k (F - {p}) (h(Some q \<mapsto> p)) (A(p := Suc (A p)))"
proof -
  have pk: "p < k" using abs_inv_free[OF inv p] .
  have Ap: "A p < k" using abs_inv_not_exhausted[OF inv pp p] .
  have old: "pp ! p' ! i \<noteq> q" if "p' < k" "i < A p'" for p' i
    using abs_inv_proposed[OF inv that] none by auto
  have 1: "F - {p} \<subseteq> {..<k}" using inv by (auto simp: abs_inv_def)
  have 2: "p' < k \<and> p' \<notin> F - {p} \<and> 0 < (A(p := Suc (A p))) p'
           \<and> r = Some (pp ! p' ! ((A(p := Suc (A p))) p' - 1))"
    if "(h(Some q \<mapsto> p)) r = Some p'" for r p'
  proof (cases "r = Some q")
    case True
    then show ?thesis using that pk q by simp
  next
    case False
    then have "h r = Some p'" using that by simp
    from abs_inv_held[OF inv this] p show ?thesis by auto
  qed
  have 3: "p' \<in> F - {p} \<or> (\<exists>r. (h(Some q \<mapsto> p)) r = Some p')" if "p' < k" for p'
  proof (cases "p' = p")
    case True
    then show ?thesis by auto
  next
    case False
    from abs_inv_covered[OF inv that] show ?thesis
    proof
      assume "p' \<in> F" then show ?thesis using False by simp
    next
      assume "\<exists>r. h r = Some p'"
      then obtain r where "h r = Some p'" ..
      then have "r \<noteq> Some q" using none by auto
      then show ?thesis using \<open>h r = Some p'\<close> by auto
    qed
  qed
  have 4: "(A(p := Suc (A p))) p' \<le> k" if "p' < k" for p'
    using abs_inv_cursor[OF inv that] Ap by simp
  have 5: "\<exists>c. (h(Some q \<mapsto> p)) (Some (pp ! p' ! i)) = Some c
             \<and> first_index (rp ! (pp ! p' ! i)) c \<le> first_index (rp ! (pp ! p' ! i)) p'"
    if "p' < k" "i < (A(p := Suc (A p))) p'" for p' i
  proof (cases "i < A p'")
    case True
    from old[OF that(1) True] abs_inv_proposed[OF inv that(1) True] show ?thesis by simp
  next
    case False
    then have "p' = p" "i = A p" using that(2) by (auto split: if_splits)
    then show ?thesis using q by simp
  qed
  show ?thesis using 1 2 3 4 5 by (rule abs_invI)
qed

lemma abs_inv_accept_bump:
  assumes inv: "abs_inv pp rp k F h A" and pp: "valid_prefs k pp" and p: "p \<in> F"
    and q: "q = pp ! p ! A p" and held: "h (Some q) = Some c"
    and better: "first_index (rp ! q) p < first_index (rp ! q) c"
  shows "abs_inv pp rp k (insert c (F - {p})) (h(Some q \<mapsto> p)) (A(p := Suc (A p)))"
proof -
  have pk: "p < k" using abs_inv_free[OF inv p] .
  have Ap: "A p < k" using abs_inv_not_exhausted[OF inv pp p] .
  have c: "c < k" "c \<notin> F" "Some q = Some (pp ! c ! (A c - 1))"
    using abs_inv_held[OF inv held] by auto
  have cp: "c \<noteq> p" using c p by auto
  have 1: "insert c (F - {p}) \<subseteq> {..<k}" using inv c by (auto simp: abs_inv_def)
  have 2: "p' < k \<and> p' \<notin> insert c (F - {p}) \<and> 0 < (A(p := Suc (A p))) p'
           \<and> r = Some (pp ! p' ! ((A(p := Suc (A p))) p' - 1))"
    if "(h(Some q \<mapsto> p)) r = Some p'" for r p'
  proof (cases "r = Some q")
    case True
    then show ?thesis using that pk q cp by auto
  next
    case False
    then have hr: "h r = Some p'" using that by simp
    have "p' \<noteq> c"
    proof
      assume "p' = c"
      with abs_inv_held[OF inv hr] c(3) False show False by simp
    qed
    with abs_inv_held[OF inv hr] p show ?thesis by auto
  qed
  have 3: "p' \<in> insert c (F - {p}) \<or> (\<exists>r. (h(Some q \<mapsto> p)) r = Some p')" if "p' < k" for p'
  proof (cases "p' = p \<or> p' = c")
    case True
    then show ?thesis by auto
  next
    case False
    from abs_inv_covered[OF inv that] show ?thesis
    proof
      assume "p' \<in> F" then show ?thesis using False by simp
    next
      assume "\<exists>r. h r = Some p'"
      then obtain r where "h r = Some p'" ..
      then have "r \<noteq> Some q" using held False by auto
      then show ?thesis using \<open>h r = Some p'\<close> by auto
    qed
  qed
  have 4: "(A(p := Suc (A p))) p' \<le> k" if "p' < k" for p'
    using abs_inv_cursor[OF inv that] Ap by simp
  have 5: "\<exists>c'. (h(Some q \<mapsto> p)) (Some (pp ! p' ! i)) = Some c'
             \<and> first_index (rp ! (pp ! p' ! i)) c' \<le> first_index (rp ! (pp ! p' ! i)) p'"
    if "p' < k" "i < (A(p := Suc (A p))) p'" for p' i
  proof (cases "i < A p'")
    case True
    from abs_inv_proposed[OF inv that(1) True] obtain c' where
      c': "h (Some (pp ! p' ! i)) = Some c'"
          "first_index (rp ! (pp ! p' ! i)) c' \<le> first_index (rp ! (pp ! p' ! i)) p'" by blast
    show ?thesis
    proof (cases "pp ! p' ! i = q")
      case True
      then have "c' = c" using c'(1) held by simp
      then show ?thesis using True c'(2) better by simp
    next
      case False
      then show ?thesis using c' by simp
    qed
  next
    case False
    then have "p' = p" "i = A p" using that(2) by (auto split: if_splits)
    then show ?thesis using q by simp
  qed
  show ?thesis using 1 2 3 4 5 by (rule abs_invI)
qed

lemma abs_inv_reject:
  assumes inv: "abs_inv pp rp k F h A" and pp: "valid_prefs k pp" and p: "p \<in> F"
    and q: "q = pp ! p ! A p" and held: "h (Some q) = Some c"
    and worse: "\<not> first_index (rp ! q) p < first_index (rp ! q) c"
  shows "abs_inv pp rp k F h (A(p := Suc (A p)))"
proof -
  have pk: "p < k" using abs_inv_free[OF inv p] .
  have Ap: "A p < k" using abs_inv_not_exhausted[OF inv pp p] .
  have 1: "F \<subseteq> {..<k}" using inv by (auto simp: abs_inv_def)
  have 2: "p' < k \<and> p' \<notin> F \<and> 0 < (A(p := Suc (A p))) p'
           \<and> r = Some (pp ! p' ! ((A(p := Suc (A p))) p' - 1))"
    if "h r = Some p'" for r p'
    using abs_inv_held[OF inv that] p by auto
  have 3: "p' \<in> F \<or> (\<exists>r. h r = Some p')" if "p' < k" for p'
    using abs_inv_covered[OF inv that] .
  have 4: "(A(p := Suc (A p))) p' \<le> k" if "p' < k" for p'
    using abs_inv_cursor[OF inv that] Ap by simp
  have 5: "\<exists>c'. h (Some (pp ! p' ! i)) = Some c'
             \<and> first_index (rp ! (pp ! p' ! i)) c' \<le> first_index (rp ! (pp ! p' ! i)) p'"
    if "p' < k" "i < (A(p := Suc (A p))) p'" for p' i
  proof (cases "i < A p'")
    case True
    from abs_inv_proposed[OF inv that(1) True] show ?thesis .
  next
    case False
    then have "p' = p" "i = A p" using that(2) by (auto split: if_splits)
    then show ?thesis using q held worse by simp
  qed
  show ?thesis using 1 2 3 4 5 by (rule abs_invI)
qed

definition gs_inv :: "nat list list \<Rightarrow> nat list list \<Rightarrow> nat \<Rightarrow> state \<Rightarrow> bool" where
  "gs_inv pp rp k st =
     (distinct (free st) \<and> distinct (map fst (engaged st))
      \<and> abs_inv pp rp k (set (free st)) (map_of (engaged st)) (proposals st))"

text \<open>What one iteration does to a state that satisfies the invariant: it never throws
  and never drops the proposer, and takes one of the three branches.\<close>

definition accepts_free :: "state \<Rightarrow> nat \<Rightarrow> nat \<Rightarrow> state \<Rightarrow> bool" where
  "accepts_free st p q st' =
     (map_of (engaged st) (Some q) = None
      \<and> engaged st' = Map_set (engaged st) (Some q) p
      \<and> free st' = Set_delete (free st) p)"

definition accepts_bump :: "nat list list \<Rightarrow> state \<Rightarrow> nat \<Rightarrow> nat \<Rightarrow> nat \<Rightarrow> state \<Rightarrow> bool" where
  "accepts_bump rp st p q c st' =
     (map_of (engaged st) (Some q) = Some c
      \<and> first_index (rp ! q) p < first_index (rp ! q) c
      \<and> engaged st' = Map_set (engaged st) (Some q) p
      \<and> free st' = Set_add (Set_delete (free st) p) c)"

definition rejects :: "nat list list \<Rightarrow> state \<Rightarrow> nat \<Rightarrow> nat \<Rightarrow> nat \<Rightarrow> state \<Rightarrow> bool" where
  "rejects rp st p q c st' =
     (map_of (engaged st) (Some q) = Some c
      \<and> \<not> first_index (rp ! q) p < first_index (rp ! q) c
      \<and> engaged st' = engaged st
      \<and> free st' = free st)"

lemma gs_iteration_step:
  assumes inv: "gs_inv pp rp k st" and pp: "valid_prefs k pp" and rp: "valid_prefs k rp"
    and p: "p \<in> set (free st)"
  shows "\<exists>st'. gs_iteration pp rp k st p = Inr st'
           \<and> proposals st' = (proposals st)(p := Suc (proposals st p))
           \<and> (accepts_free st p (pp ! p ! proposals st p) st'
                \<or> (\<exists>c. accepts_bump rp st p (pp ! p ! proposals st p) c st')
                \<or> (\<exists>c. rejects rp st p (pp ! p ! proposals st p) c st'))"
proof -
  let ?i = "proposals st p" and ?q = "pp ! p ! proposals st p"
  have ainv: "abs_inv pp rp k (set (free st)) (map_of (engaged st)) (proposals st)"
    using inv by (simp add: gs_inv_def)
  have pk: "p < k" using abs_inv_free[OF ainv p] .
  have ik: "?i < k" using abs_inv_not_exhausted[OF ainv pp p] .
  have qk: "?q < k" using valid_prefs_nth[OF pp pk ik] .
  have len: "length pp = k" "length rp = k" "length (pp ! p) = k"
    using pp rp valid_prefs_row[OF pp pk] by (simp_all add: valid_prefs_def valid_side_def)
  have nth: "js_nth (pp ! p) ?i = Some ?q" using ik len by (simp add: js_nth_def)
  show ?thesis
  proof (cases "map_of (engaged st) (Some ?q)")
    case None
    then show ?thesis using ik pk len nth
      by (simp add: gs_iteration_def accepts_free_def Let_def)
  next
    case (Some c)
    have ck: "c < k" using abs_inv_held[OF ainv Some] by simp
    have idx: "indexOf (rp ! ?q) (Some p) = int (first_index (rp ! ?q) p)"
              "indexOf (rp ! ?q) (Some c) = int (first_index (rp ! ?q) c)"
      using valid_prefs_member[OF rp qk pk] valid_prefs_member[OF rp qk ck]
      by (simp_all add: indexOf_member)
    show ?thesis
    proof (cases "first_index (rp ! ?q) p < first_index (rp ! ?q) c")
      case True
      then show ?thesis using Some ik pk qk len nth idx
        by (simp add: gs_iteration_def accepts_bump_def Let_def)
    next
      case False
      then show ?thesis using Some ik pk qk len nth idx
        by (simp add: gs_iteration_def rejects_def Let_def)
    qed
  qed
qed

lemma keys_Map_set:
  "map fst (Map_set m k v) = (if k \<in> fst ` set m then map fst m else map fst m @ [k])"
  by (induction m k v rule: Map_set.induct) (auto simp: image_iff)

lemma distinct_keys_Map_set:
  "distinct (map fst m) \<Longrightarrow> distinct (map fst (Map_set m k v))"
  by (simp add: keys_Map_set)

lemma distinct_Set_delete: "distinct xs \<Longrightarrow> distinct (Set_delete xs x)"
  by (simp add: Set_delete_def distinct_removeAll)

lemma distinct_Set_add: "distinct xs \<Longrightarrow> distinct (Set_add xs x)"
  by (simp add: Set_add_def)

lemma gs_iteration_inv:
  assumes inv: "gs_inv pp rp k st" and pp: "valid_prefs k pp" and rp: "valid_prefs k rp"
    and p: "p \<in> set (free st)" and step: "gs_iteration pp rp k st p = Inr st'"
  shows "gs_inv pp rp k st'"
proof -
  let ?q = "pp ! p ! proposals st p"
  have ainv: "abs_inv pp rp k (set (free st)) (map_of (engaged st)) (proposals st)"
    and d: "distinct (free st)" "distinct (map fst (engaged st))"
    using inv by (simp_all add: gs_inv_def)
  from gs_iteration_step[OF inv pp rp p] step
  have A: "proposals st' = (proposals st)(p := Suc (proposals st p))"
    and cases: "accepts_free st p ?q st' \<or> (\<exists>c. accepts_bump rp st p ?q c st')
                \<or> (\<exists>c. rejects rp st p ?q c st')"
    by auto
  from cases show ?thesis
  proof (elim disjE exE)
    assume a: "accepts_free st p ?q st'"
    then have "abs_inv pp rp k (set (free st')) (map_of (engaged st')) (proposals st')"
      using abs_inv_accept_free[OF ainv pp p refl] A
      by (simp add: accepts_free_def)
    then show ?thesis using a d
      by (simp add: gs_inv_def accepts_free_def distinct_keys_Map_set distinct_Set_delete)
  next
    fix c assume a: "accepts_bump rp st p ?q c st'"
    then have "abs_inv pp rp k (set (free st')) (map_of (engaged st')) (proposals st')"
      using abs_inv_accept_bump[OF ainv pp p refl, of c] A
      by (simp add: accepts_bump_def)
    then show ?thesis using a d
      by (simp add: gs_inv_def accepts_bump_def distinct_keys_Map_set distinct_Set_delete
          distinct_Set_add)
  next
    fix c assume a: "rejects rp st p ?q c st'"
    then have "abs_inv pp rp k (set (free st')) (map_of (engaged st')) (proposals st')"
      using abs_inv_reject[OF ainv pp p refl, of c] A
      by (simp add: rejects_def)
    then show ?thesis using a d
      by (simp add: gs_inv_def rejects_def)
  qed
qed

lemma foldl_Set_add_distinct: "distinct (acc @ xs) \<Longrightarrow> foldl Set_add acc xs = acc @ xs"
  by (induction xs arbitrary: acc) (auto simp: Set_add_def)

lemma new_Set_distinct: "distinct xs \<Longrightarrow> new_Set xs = xs"
  using foldl_Set_add_distinct[of "[]" xs] by (simp add: new_Set_def)

lemma foldl_Set_add_set: "set (foldl Set_add acc xs) = set acc \<union> set xs"
  by (induction xs arbitrary: acc) auto

lemma foldl_Set_add_keeps_distinct: "distinct acc \<Longrightarrow> distinct (foldl Set_add acc xs)"
  by (induction xs arbitrary: acc) (auto simp: distinct_Set_add)

lemma set_new_Set: "set (new_Set xs) = set xs"
  by (simp add: new_Set_def foldl_Set_add_set)

lemma distinct_new_Set: "distinct (new_Set xs)"
  by (simp add: new_Set_def foldl_Set_add_keeps_distinct)

lemma gs_inv_initial:
  assumes "valid_side k proposers"
  shows "gs_inv pp rp k (initial proposers)"
proof -
  have "set proposers = {..<k}" using valid_side_set[OF assms] .
  moreover have "new_Set proposers = proposers"
    using assms by (simp add: valid_side_def new_Set_distinct)
  ultimately show ?thesis
    using assms by (simp add: gs_inv_def initial_def abs_inv_def valid_side_def)
qed

lemma sp_loop_invariant:
  assumes "P this st"
    and "\<And>this st p rest. P this st \<Longrightarrow> free st = p # rest \<Longrightarrow>
           \<exists>st' this'. sp_iteration this st p = (Inr st', this') \<and> P this' st'"
  shows "\<exists>st' this'. sp_loop this st = (Inr st', this') \<and> P this' st' \<and> free st' = []"
  using assms(1)
proof (induction this st rule: sp_loop.induct)
  case (1 this st)
  show ?case
  proof (cases "free st")
    case Nil
    then show ?thesis using "1.prems" by (subst sp_loop.simps) simp
  next
    case (Cons p rest)
    from assms(2)[OF "1.prems" Cons] obtain st' this' where
      it: "sp_iteration this st p = (Inr st', this')" and P': "P this' st'" by blast
    from "1.IH"[OF Cons it[symmetric] refl P']
    show ?thesis using Cons it by (subst sp_loop.simps) simp
  qed
qed

lemma ep_loop_invariant:
  assumes "P st"
    and "\<And>st p rest. P st \<Longrightarrow> free st = p # rest \<Longrightarrow>
           \<exists>st'. ep_iteration this st p = Inr st' \<and> P st'"
  shows "\<exists>st'. ep_loop this st = Inr st' \<and> P st' \<and> free st' = []"
  using assms
proof (induction this st rule: ep_loop.induct)
  case (1 this st)
  show ?case
  proof (cases "free st")
    case Nil
    then show ?thesis using "1.prems"(1) by (subst ep_loop.simps) simp
  next
    case (Cons p rest)
    from "1.prems"(2)[OF "1.prems"(1) Cons] obtain st' where
      it: "ep_iteration this st p = Inr st'" and P': "P st'" by blast
    from "1.IH"[OF Cons it P' "1.prems"(2)]
    show ?thesis using Cons it by (subst ep_loop.simps) simp
  qed
qed

subsection \<open>The state when a loop ends\<close>

lemma abs_final_held:
  assumes inv: "abs_inv pp rp k {} h A" and p: "p < k"
  shows "h (Some (pp ! p ! (A p - 1))) = Some p \<and> 0 < A p \<and> A p \<le> k"
proof -
  from abs_inv_covered[OF inv p] obtain r where r: "h r = Some p" by auto
  from abs_inv_held[OF inv r] abs_inv_cursor[OF inv p] r show ?thesis by auto
qed

lemma abs_preferred_holds_better:
  assumes inv: "abs_inv pp rp k F h A" and pp: "valid_prefs k pp" and p: "p < k" and q: "q < k"
    and less: "first_index (pp ! p) q < A p"
  shows "\<exists>c. h (Some q) = Some c \<and> first_index (rp ! q) c \<le> first_index (rp ! q) p"
  using abs_inv_proposed[OF inv p less] valid_prefs_nth_first_index[OF pp p q] by simp

lemma map_of_distinct_keys:
  "distinct (map fst m) \<Longrightarrow> map_of m r = Some p \<longleftrightarrow> (r, p) \<in> set m"
  by simp

lemma gs_final_values:
  assumes inv: "gs_inv pp rp k st" and fin: "free st = []"
  shows "distinct (map snd (engaged st))" and "set (map snd (engaged st)) = {..<k}"
proof -
  have ainv: "abs_inv pp rp k {} (map_of (engaged st)) (proposals st)"
    and d: "distinct (map fst (engaged st))"
    using inv fin by (simp_all add: gs_inv_def)
  have "inj_on snd (set (engaged st))"
  proof (rule inj_onI)
    fix x y assume "x \<in> set (engaged st)" "y \<in> set (engaged st)" "snd x = snd y"
    then have "(fst x, snd x) \<in> set (engaged st)" "(fst y, snd x) \<in> set (engaged st)"
      by (metis prod.collapse)+
    then have "map_of (engaged st) (fst x) = Some (snd x)" "map_of (engaged st) (fst y) = Some (snd x)"
      using d by simp_all
    from abs_inv_held[OF ainv this(1)] abs_inv_held[OF ainv this(2)] \<open>snd x = snd y\<close>
    show "x = y" by (simp add: prod_eq_iff)
  qed
  moreover have "distinct (engaged st)" using d by (simp add: distinct_map)
  ultimately show "distinct (map snd (engaged st))" by (simp add: distinct_map)
  show "set (map snd (engaged st)) = {..<k}"
  proof (intro equalityI subsetI)
    fix p assume "p \<in> set (map snd (engaged st))"
    then obtain r where "(r, p) \<in> set (engaged st)" by auto
    then have "map_of (engaged st) r = Some p" using d by simp
    from abs_inv_held[OF ainv this] show "p \<in> {..<k}" by simp
  next
    fix p assume "p \<in> {..<k}"
    then have "p < k" by simp
    from abs_final_held[OF ainv this] have "(Some (pp ! p ! (proposals st p - 1)), p) \<in> set (engaged st)"
      by (auto dest: map_of_SomeD)
    then show "p \<in> set (map snd (engaged st))" by force
  qed
qed

lemma gs_final_keys:
  assumes inv: "gs_inv pp rp k st" and pp: "valid_prefs k pp" and fin: "free st = []"
  shows "set (map fst (engaged st)) = Some ` {..<k}"
proof -
  have ainv: "abs_inv pp rp k {} (map_of (engaged st)) (proposals st)"
    and d: "distinct (map fst (engaged st))"
    using inv fin by (simp_all add: gs_inv_def)
  have sub: "set (map fst (engaged st)) \<subseteq> Some ` {..<k}"
  proof
    fix r assume "r \<in> set (map fst (engaged st))"
    then obtain p where "(r, p) \<in> set (engaged st)" by auto
    then have h: "map_of (engaged st) r = Some p" using d by simp
    from abs_inv_held[OF ainv h] have p: "p < k" "0 < proposals st p"
      "r = Some (pp ! p ! (proposals st p - 1))" by auto
    have "proposals st p - 1 < k" using abs_inv_cursor[OF ainv p(1)] p(2) by simp
    from valid_prefs_nth[OF pp p(1) this] p(3) show "r \<in> Some ` {..<k}" by simp
  qed
  have "card (set (map fst (engaged st))) = length (engaged st)"
    using d by (metis distinct_card length_map)
  also have "\<dots> = card (set (map snd (engaged st)))"
    using gs_final_values(1)[OF inv fin] by (metis distinct_card length_map)
  also have "\<dots> = k" using gs_final_values(2)[OF inv fin] by simp
  finally have "card (set (map fst (engaged st))) = card (Some ` {..<k})"
    by (simp add: card_image)
  with sub show ?thesis by (simp add: card_subset_eq)
qed

lemma valid_instanceD:
  assumes "valid_instance this"
  shows "valid_prefs (engine_n this) (studentPrefs this)"
    and "valid_prefs (engine_n this) (establishmentPrefs this)"
    and "valid_side (engine_n this) (students this)"
    and "valid_side (engine_n this) (establishments this)"
    and "length (studentPrefs this) = engine_n this"
    and "length (establishmentPrefs this) = engine_n this"
  using assms unfolding valid_instance_def valid_prefs_def by blast+

subsection \<open>Matchings as entry lists\<close>

definition bijective_matching :: "nat \<Rightarrow> matching \<Rightarrow> bool" where
  "bijective_matching k m =
     (distinct (map fst m) \<and> set (map fst m) = Some ` {..<k}
      \<and> distinct (map snd m) \<and> set (map snd m) = Some ` {..<k})"

lemma Map_get_entry: "distinct (map fst m) \<Longrightarrow> (k, v) \<in> set m \<Longrightarrow> Map_get m k = v"
  by (simp add: Map_get_def)

lemma find_value_entry:
  "distinct (map snd m) \<Longrightarrow> (k, v) \<in> set m \<Longrightarrow> find (\<lambda>(k', e). e = v) m = Some (k, v)"
proof (induction m)
  case Nil
  then show ?case by simp
next
  case (Cons a m)
  then show ?case by (cases a) force
qed

lemma find_key_entry:
  "distinct (map snd m) \<Longrightarrow> (k, Some x) \<in> set m \<Longrightarrow> find_key m x = k"
  by (simp add: find_key_def find_value_entry)

lemma bijective_matching_student:
  assumes "bijective_matching k m" and "s < k"
  shows "\<exists>e<k. (Some s, Some e) \<in> set m"
proof -
  have "Some s \<in> set (map fst m)" using assms by (simp add: bijective_matching_def)
  then obtain v where v: "(Some s, v) \<in> set m" by auto
  then have "v \<in> set (map snd m)" by force
  then have "v \<in> Some ` {..<k}" using assms(1) by (simp add: bijective_matching_def)
  with v show ?thesis by auto
qed

lemma bijective_matching_establishment:
  assumes "bijective_matching k m" and "e < k"
  shows "\<exists>s<k. (Some s, Some e) \<in> set m"
proof -
  have "Some e \<in> set (map snd m)" using assms by (simp add: bijective_matching_def)
  then obtain u where u: "(u, Some e) \<in> set m" by auto
  then have "u \<in> set (map fst m)" by force
  then have "u \<in> Some ` {..<k}" using assms(1) by (simp add: bijective_matching_def)
  with u show ?thesis by auto
qed

lemma Map_set_absent: "k \<notin> fst ` set m \<Longrightarrow> Map_set m k v = m @ [(k, v)]"
  by (induction m k v rule: Map_set.induct) auto

lemma invert_foldl:
  "distinct (map fst acc @ map (\<lambda>x. Some (snd x)) eng) \<Longrightarrow>
   foldl (\<lambda>m (establishment, student). Map_set m (Some student) establishment) acc eng
     = acc @ map (\<lambda>(establishment, student). (Some student, establishment)) eng"
proof (induction eng arbitrary: acc)
  case Nil
  then show ?case by simp
next
  case (Cons a eng)
  obtain r p where a: "a = (r, p)" by (cases a)
  have absent: "Some p \<notin> fst ` set acc" using Cons.prems a by auto
  have "distinct (map fst (acc @ [(Some p, r)]) @ map (\<lambda>x. Some (snd x)) eng)"
    using Cons.prems a by auto
  from Cons.IH[OF this] show ?case using a absent by (simp add: Map_set_absent)
qed

lemma invert_distinct:
  "distinct (map snd eng) \<Longrightarrow>
   invert eng = map (\<lambda>(establishment, student). (Some student, establishment)) eng"
  using invert_foldl[of "[]" eng] by (simp add: invert_def distinct_map comp_def inj_on_def)

subsection \<open>What verifyStability computes\<close>

text \<open>The test of the inner loop body for student \<open>s\<close> and establishment \<open>e\<close>.\<close>

definition blocks :: "engine \<Rightarrow> matching \<Rightarrow> nat \<Rightarrow> nat \<Rightarrow> bool" where
  "blocks this m s e =
     (case find_key m e of
        None \<Rightarrow> False
      | Some matchedS \<Rightarrow>
          indexOf (establishmentPrefs this ! e) (Some s)
            < indexOf (establishmentPrefs this ! e) (Some matchedS))"

definition preferred_ranks :: "engine \<Rightarrow> matching \<Rightarrow> nat \<Rightarrow> nat list" where
  "preferred_ranks this m s = [0..<nat (indexOf (studentPrefs this ! s) (Map_get m (Some s)))]"

definition blocking_of :: "engine \<Rightarrow> matching \<Rightarrow> nat \<Rightarrow> (nat \<times> nat) list" where
  "blocking_of this m s =
     map (\<lambda>j. (s, studentPrefs this ! s ! j))
       (filter (\<lambda>j. blocks this m s (studentPrefs this ! s ! j)) (preferred_ranks this m s))"

lemma verify_inner_pairs:
  assumes "\<forall>j\<in>set idxs. row ! j < length (establishmentPrefs this)"
  shows "verify_inner this m s row idxs acc =
           Inr (acc @ map (\<lambda>j. (s, row ! j)) (filter (\<lambda>j. blocks this m s (row ! j)) idxs))"
  using assms
  by (induction idxs arbitrary: acc) (auto simp: Let_def blocks_def split: option.splits)

lemma indexOf_bound: "nat (indexOf xs v) \<le> length xs"
  using first_index_less[of _ xs]
  by (auto simp: indexOf_def split: option.splits intro: less_imp_le)

lemma indexOf_lower: "- 1 \<le> indexOf xs v"
  by (simp add: indexOf_def split: option.splits)

lemma verify_outer_pairs:
  assumes sp: "valid_prefs k (studentPrefs this)" and ep: "length (establishmentPrefs this) = k"
    and ss: "\<forall>s\<in>set ss. s < k"
  shows "verify_outer this m ss acc = Inr (acc @ concat (map (blocking_of this m) ss))"
  using ss
proof (induction ss arbitrary: acc)
  case Nil
  then show ?case by simp
next
  case (Cons s ss)
  let ?row = "studentPrefs this ! s"
  have sk: "s < k" using Cons.prems by simp
  have len: "length (studentPrefs this) = k" "length ?row = k"
    using sp valid_prefs_row[OF sp sk] by (simp_all add: valid_prefs_def valid_side_def)
  have "\<forall>j\<in>set (preferred_ranks this m s). ?row ! j < length (establishmentPrefs this)"
  proof
    fix j assume "j \<in> set (preferred_ranks this m s)"
    then have "j < k" using indexOf_bound[of ?row "Map_get m (Some s)"] len
      by (simp add: preferred_ranks_def)
    from valid_prefs_nth[OF sp sk this] ep show "?row ! j < length (establishmentPrefs this)"
      by simp
  qed
  from verify_inner_pairs[OF this]
  have inner: "verify_inner this m s ?row (preferred_ranks this m s) acc
                 = Inr (acc @ blocking_of this m s)"
    by (simp add: blocking_of_def)
  have "verify_outer this m ss (acc @ blocking_of this m s)
          = Inr ((acc @ blocking_of this m s) @ concat (map (blocking_of this m) ss))"
    using Cons.prems by (intro Cons.IH) simp
  then show ?case using inner sk len by (simp add: preferred_ranks_def)
qed

lemma verifyStability_pairs:
  assumes "valid_instance this"
  shows "verifyStability this m =
           Inr (concat (map (blocking_of this m) [0..<engine_n this]) = [],
                concat (map (blocking_of this m) [0..<engine_n this]))"
proof -
  from verify_outer_pairs[OF valid_instanceD(1,6)[OF assms], of "[0..<engine_n this]" m "[]"]
  show ?thesis by (simp add: verifyStability_def)
qed

lemma verifyStability_stable_iff:
  assumes "valid_instance this"
  shows "verifyStability this m = Inr (True, []) \<longleftrightarrow>
         (\<forall>s<engine_n this. \<forall>j\<in>set (preferred_ranks this m s).
            \<not> blocks this m s (studentPrefs this ! s ! j))"
proof -
  have "concat (map (blocking_of this m) [0..<engine_n this]) = [] \<longleftrightarrow>
        (\<forall>s<engine_n this. blocking_of this m s = [])"
    by auto
  also have "\<dots> \<longleftrightarrow> (\<forall>s<engine_n this. \<forall>j\<in>set (preferred_ranks this m s).
            \<not> blocks this m s (studentPrefs this ! s ! j))"
    by (simp add: blocking_of_def filter_empty_conv)
  finally show ?thesis using verifyStability_pairs[OF assms, of m] by auto
qed

lemma abs_final_no_blocking:
  assumes inv: "abs_inv pp rp k {} h A" and pp: "valid_prefs k pp"
    and p: "p < k" and q: "q < k" and held: "h (Some q) = Some c"
  shows "\<not> (first_index (pp ! p) q < first_index (pp ! p) (pp ! p ! (A p - 1))
            \<and> first_index (rp ! q) p < first_index (rp ! q) c)"
proof
  assume a: "first_index (pp ! p) q < first_index (pp ! p) (pp ! p ! (A p - 1))
            \<and> first_index (rp ! q) p < first_index (rp ! q) c"
  from abs_final_held[OF inv p] have Ap: "0 < A p" "A p \<le> k" by auto
  then have "A p - 1 < k" by simp
  from valid_prefs_first_index_nth[OF pp p this] a have "first_index (pp ! p) q < A p" by linarith
  from abs_preferred_holds_better[OF inv pp p q this] held a show False by auto
qed

subsection \<open>The result of solveStudentsPropose on a valid instance\<close>

definition same_instance :: "engine \<Rightarrow> engine \<Rightarrow> bool" where
  "same_instance this this' =
     (students this' = students this \<and> establishments this' = establishments this
      \<and> studentPrefs this' = studentPrefs this
      \<and> establishmentPrefs this' = establishmentPrefs this
      \<and> engine_n this' = engine_n this)"

lemma same_instance_refl: "same_instance this this"
  by (simp add: same_instance_def)

lemma sp_iteration_same_instance: "same_instance this (snd (sp_iteration this st s))"
  using sp_iteration_engine[of this st s] by (auto simp: same_instance_def)

lemma same_instance_valid: "same_instance this this' \<Longrightarrow> valid_instance this \<Longrightarrow> valid_instance this'"
  unfolding same_instance_def valid_instance_def by metis

lemma sp_loop_final:
  assumes v: "valid_instance this"
    and inv: "gs_inv (studentPrefs this) (establishmentPrefs this) (engine_n this) st"
  shows "\<exists>st' this'. sp_loop this st = (Inr st', this') \<and> same_instance this this'
           \<and> gs_inv (studentPrefs this) (establishmentPrefs this) (engine_n this) st'
           \<and> free st' = []"
proof -
  let ?pp = "studentPrefs this" and ?rp = "establishmentPrefs this" and ?k = "engine_n this"
  let ?P = "\<lambda>this' st. same_instance this this' \<and> gs_inv ?pp ?rp ?k st"
  have "\<exists>st' this'. sp_iteration this1 st1 p = (Inr st', this') \<and> ?P this' st'"
    if "?P this1 st1" "free st1 = p # rest" for this1 st1 p rest
  proof -
    have s: "same_instance this this1" and i: "gs_inv ?pp ?rp ?k st1" using that(1) by auto
    have p: "p \<in> set (free st1)" using that(2) by simp
    from gs_iteration_step[OF i valid_instanceD(1,2)[OF v] p] obtain st' where
      st': "gs_iteration ?pp ?rp ?k st1 p = Inr st'" by blast
    then have "fst (sp_iteration this1 st1 p) = Inr st'"
      using s by (simp add: sp_iteration_gs same_instance_def)
    moreover have "same_instance this (snd (sp_iteration this1 st1 p))"
      using s sp_iteration_same_instance[of this1 st1 p] by (simp add: same_instance_def)
    moreover have "gs_inv ?pp ?rp ?k st'"
      using gs_iteration_inv[OF i valid_instanceD(1,2)[OF v] p st'] .
    ultimately show ?thesis by (metis prod.collapse)
  qed
  note step = this
  have "\<exists>st' this'. sp_loop this st = (Inr st', this') \<and> ?P this' st' \<and> free st' = []"
  proof (rule sp_loop_invariant[where P = ?P])
    show "?P this st" using inv same_instance_refl by simp
  next
    fix this1 st1 p rest
    assume "?P this1 st1" "free st1 = p # rest"
    then show "\<exists>st' this'. sp_iteration this1 st1 p = (Inr st', this') \<and> ?P this' st'"
      by (rule step)
  qed
  then show ?thesis by blast
qed

lemma ep_loop_final:
  assumes v: "valid_instance this"
    and inv: "gs_inv (establishmentPrefs this) (studentPrefs this) (engine_n this) st"
  shows "\<exists>st'. ep_loop this st = Inr st'
           \<and> gs_inv (establishmentPrefs this) (studentPrefs this) (engine_n this) st'
           \<and> free st' = []"
proof -
  let ?pp = "establishmentPrefs this" and ?rp = "studentPrefs this" and ?k = "engine_n this"
  have "\<exists>st'. ep_iteration this st1 p = Inr st' \<and> gs_inv ?pp ?rp ?k st'"
    if i: "gs_inv ?pp ?rp ?k st1" and "free st1 = p # rest" for st1 p rest
  proof -
    have p: "p \<in> set (free st1)" using that(2) by simp
    from gs_iteration_step[OF i valid_instanceD(2,1)[OF v] p] obtain st' where
      st': "gs_iteration ?pp ?rp ?k st1 p = Inr st'" by blast
    with gs_iteration_inv[OF i valid_instanceD(2,1)[OF v] p st'] show ?thesis
      by (simp add: ep_iteration_gs)
  qed
  note step = this
  show ?thesis
  proof (rule ep_loop_invariant[where P = "gs_inv ?pp ?rp ?k"])
    show "gs_inv ?pp ?rp ?k st" by (rule inv)
  next
    fix st1 p rest
    assume "gs_inv ?pp ?rp ?k st1" "free st1 = p # rest"
    then show "\<exists>st'. ep_iteration this st1 p = Inr st' \<and> gs_inv ?pp ?rp ?k st'"
      by (rule step)
  qed
qed

definition sp_matching :: "state \<Rightarrow> matching" where
  "sp_matching st = map (\<lambda>(establishment, student). (Some student, establishment)) (engaged st)"

definition ep_matching :: "state \<Rightarrow> matching" where
  "ep_matching st = map (\<lambda>(student, establishment). (student, Some establishment)) (engaged st)"

lemma sp_matching_keys: "map fst (sp_matching st) = map Some (map snd (engaged st))"
  by (simp add: sp_matching_def case_prod_unfold)

lemma sp_matching_values: "map snd (sp_matching st) = map fst (engaged st)"
  by (simp add: sp_matching_def case_prod_unfold)

lemma ep_matching_keys: "map fst (ep_matching st) = map fst (engaged st)"
  by (simp add: ep_matching_def case_prod_unfold)

lemma ep_matching_values: "map snd (ep_matching st) = map Some (map snd (engaged st))"
  by (simp add: ep_matching_def case_prod_unfold)

lemma distinct_map_Some: "distinct (map Some xs) = distinct xs"
  by (simp add: distinct_map)

lemma sp_matching_bijective:
  assumes "gs_inv pp rp k st" and "valid_prefs k pp" and "free st = []"
  shows "bijective_matching k (sp_matching st)"
proof -
  have "set (map Some (map snd (engaged st))) = Some ` {..<k}"
    using gs_final_values(2)[OF assms(1,3)] by (metis list.set_map)
  moreover have "distinct (map fst (engaged st))" using assms(1) by (simp add: gs_inv_def)
  ultimately show ?thesis
    unfolding bijective_matching_def sp_matching_keys sp_matching_values distinct_map_Some
    using gs_final_values(1)[OF assms(1,3)] gs_final_keys[OF assms] by blast
qed

lemma ep_matching_bijective:
  assumes "gs_inv pp rp k st" and "valid_prefs k pp" and "free st = []"
  shows "bijective_matching k (ep_matching st)"
proof -
  have "set (map Some (map snd (engaged st))) = Some ` {..<k}"
    using gs_final_values(2)[OF assms(1,3)] by (metis list.set_map)
  moreover have "distinct (map fst (engaged st))" using assms(1) by (simp add: gs_inv_def)
  ultimately show ?thesis
    unfolding bijective_matching_def ep_matching_keys ep_matching_values distinct_map_Some
    using gs_final_values(1)[OF assms(1,3)] gs_final_keys[OF assms] by blast
qed

lemma sp_result:
  assumes v: "valid_instance this"
  shows "\<exists>st this'. solveStudentsPropose this = (Inr (sp_matching st, proposalCounts this'), this')
           \<and> sp_loop this (initial (students this)) = (Inr st, this')
           \<and> same_instance this this'
           \<and> gs_inv (studentPrefs this) (establishmentPrefs this) (engine_n this) st
           \<and> free st = []"
proof -
  from sp_loop_final[OF v gs_inv_initial[OF valid_instanceD(3)[OF v]]]
  obtain st this' where
    loop: "sp_loop this (initial (students this)) = (Inr st, this')"
    and s: "same_instance this this'"
    and inv: "gs_inv (studentPrefs this) (establishmentPrefs this) (engine_n this) st"
    and fin: "free st = []" by blast
  have "invert (engaged st) = sp_matching st"
    using invert_distinct[OF gs_final_values(1)[OF inv fin]] by (simp add: sp_matching_def)
  then show ?thesis using loop s inv fin by (simp add: solveStudentsPropose_def)
qed

lemma ep_result:
  assumes v: "valid_instance this"
  shows "\<exists>st. solveEstablishmentsPropose this =
                 Inr (ep_matching st, map (\<lambda>e. (e, proposals st e)) (establishments this))
           \<and> ep_loop this (initial (establishments this)) = Inr st
           \<and> gs_inv (establishmentPrefs this) (studentPrefs this) (engine_n this) st
           \<and> free st = []"
proof -
  from ep_loop_final[OF v gs_inv_initial[OF valid_instanceD(4)[OF v]]]
  obtain st where
    loop: "ep_loop this (initial (establishments this)) = Inr st"
    and inv: "gs_inv (establishmentPrefs this) (studentPrefs this) (engine_n this) st"
    and fin: "free st = []" by blast
  have "new_Set (establishments this) = establishments this"
    using valid_instanceD(4)[OF v] by (simp add: valid_side_def new_Set_distinct)
  then show ?thesis using loop inv fin
    by (simp add: solveEstablishmentsPropose_def ep_matching_def)
qed

lemma preferred_ranks_member:
  "j \<in> set (preferred_ranks this m s) \<longleftrightarrow>
     int j < indexOf (studentPrefs this ! s) (Map_get m (Some s))"
  by (auto simp: preferred_ranks_def)

lemma sp_final_stable:
  assumes v: "valid_instance this"
    and inv: "gs_inv (studentPrefs this) (establishmentPrefs this) (engine_n this) st"
    and fin: "free st = []"
  shows "verifyStability this (sp_matching st) = Inr (True, [])"
proof -
  let ?sp = "studentPrefs this" and ?ep = "establishmentPrefs this" and ?k = "engine_n this"
  let ?h = "map_of (engaged st)" and ?A = "proposals st" and ?M = "sp_matching st"
  note sp = valid_instanceD(1)[OF v] and ep = valid_instanceD(2)[OF v]
  have ainv: "abs_inv ?sp ?ep ?k {} ?h ?A"
    and dk: "distinct (map fst (engaged st))"
    using inv fin by (simp_all add: gs_inv_def)
  have bij: "bijective_matching ?k ?M" using sp_matching_bijective[OF inv sp fin] .
  then have dM: "distinct (map fst ?M)" "distinct (map snd ?M)"
    by (simp_all add: bijective_matching_def)
  have entry: "(Some c, Some q) \<in> set ?M" if "?h (Some q) = Some c" for q c
    using map_of_SomeD[OF that] by (force simp: sp_matching_def)
  have "\<not> blocks this ?M s (?sp ! s ! j)"
    if s: "s < ?k" and j: "j \<in> set (preferred_ranks this ?M s)" for s j
  proof -
    let ?g = "?sp ! s ! (?A s - 1)"
    from abs_final_held[OF ainv s] have g: "?h (Some ?g) = Some s" "0 < ?A s" "?A s \<le> ?k"
      by auto
    have g1: "?A s - 1 < ?k" using g by simp
    have gk: "?g < ?k" using valid_prefs_nth[OF sp s g1] .
    have "Map_get ?M (Some s) = Some ?g" using Map_get_entry[OF dM(1) entry[OF g(1)]] .
    moreover have "indexOf (?sp ! s) (Some ?g) = int (?A s - 1)"
      using indexOf_member[OF valid_prefs_member[OF sp s gk]]
        valid_prefs_first_index_nth[OF sp s g1] by simp
    ultimately have jA: "j < ?A s - 1" using j by (simp add: preferred_ranks_member)
    then have jk: "j < ?k" "j < ?A s" using g1 by simp_all
    let ?q = "?sp ! s ! j"
    have qk: "?q < ?k" using valid_prefs_nth[OF sp s jk(1)] .
    from abs_inv_proposed[OF ainv s jk(2)] obtain c where
      c: "?h (Some ?q) = Some c" "first_index (?ep ! ?q) c \<le> first_index (?ep ! ?q) s"
      by blast
    have ck: "c < ?k" using abs_inv_held[OF ainv c(1)] by simp
    have "find_key ?M ?q = Some c" using find_key_entry[OF dM(2) entry[OF c(1)]] .
    then show ?thesis
      using c(2) indexOf_member[OF valid_prefs_member[OF ep qk s]]
        indexOf_member[OF valid_prefs_member[OF ep qk ck]]
      by (simp add: blocks_def)
  qed
  then show ?thesis by (simp add: verifyStability_stable_iff[OF v])
qed

lemma ep_final_stable:
  assumes v: "valid_instance this"
    and inv: "gs_inv (establishmentPrefs this) (studentPrefs this) (engine_n this) st"
    and fin: "free st = []"
  shows "verifyStability this (ep_matching st) = Inr (True, [])"
proof -
  let ?sp = "studentPrefs this" and ?ep = "establishmentPrefs this" and ?k = "engine_n this"
  let ?h = "map_of (engaged st)" and ?A = "proposals st" and ?M = "ep_matching st"
  note sp = valid_instanceD(1)[OF v] and ep = valid_instanceD(2)[OF v]
  have ainv: "abs_inv ?ep ?sp ?k {} ?h ?A"
    and dk: "distinct (map fst (engaged st))"
    using inv fin by (simp_all add: gs_inv_def)
  have bij: "bijective_matching ?k ?M" using ep_matching_bijective[OF inv ep fin] .
  then have dM: "distinct (map fst ?M)" "distinct (map snd ?M)"
    by (simp_all add: bijective_matching_def)
  have entry: "(Some s, Some e) \<in> set ?M" if "?h (Some s) = Some e" for s e
    using map_of_SomeD[OF that] by (force simp: ep_matching_def)
  have "\<not> blocks this ?M s (?sp ! s ! j)"
    if s: "s < ?k" and j: "j \<in> set (preferred_ranks this ?M s)" for s j
  proof -
    have "Some s \<in> set (map fst (engaged st))" using gs_final_keys[OF inv ep fin] s by simp
    then obtain e where "(Some s, e) \<in> set (engaged st)" by auto
    then have e: "?h (Some s) = Some e" using dk by simp
    have ek: "e < ?k" using abs_inv_held[OF ainv e] by simp
    have "Map_get ?M (Some s) = Some e" using Map_get_entry[OF dM(1) entry[OF e]] .
    then have jlt: "j < first_index (?sp ! s) e"
      using j indexOf_member[OF valid_prefs_member[OF sp s ek]]
      by (simp add: preferred_ranks_member)
    then have jk: "j < ?k" using valid_prefs_first_index_less[OF sp s ek] by simp
    let ?e' = "?sp ! s ! j"
    have e'k: "?e' < ?k" using valid_prefs_nth[OF sp s jk] .
    have je': "first_index (?sp ! s) ?e' = j" using valid_prefs_first_index_nth[OF sp s jk] .
    let ?s' = "?ep ! ?e' ! (?A ?e' - 1)"
    from abs_final_held[OF ainv e'k] have s': "?h (Some ?s') = Some ?e'" "0 < ?A ?e'" "?A ?e' \<le> ?k"
      by auto
    have s'k: "?s' < ?k" using valid_prefs_nth[OF ep e'k, of "?A ?e' - 1"] s' by simp
    have fk: "find_key ?M ?e' = Some ?s'" using find_key_entry[OF dM(2) entry[OF s'(1)]] .
    from abs_final_no_blocking[OF ainv ep e'k s e] jlt je'
    have "\<not> first_index (?ep ! ?e') s < first_index (?ep ! ?e') ?s'" by simp
    then show ?thesis
      using fk indexOf_member[OF valid_prefs_member[OF ep e'k s]]
        indexOf_member[OF valid_prefs_member[OF ep e'k s'k]]
      by (simp add: blocks_def)
  qed
  then show ?thesis by (simp add: verifyStability_stable_iff[OF v])
qed

lemma verifyStability_same_instance:
  "same_instance this this' \<Longrightarrow> verifyStability this' m = verifyStability this m"
proof -
  assume s: "same_instance this this'"
  have inner: "verify_inner this' m x row idxs acc = verify_inner this m x row idxs acc"
    for x row idxs acc
    using s by (induction idxs arbitrary: acc) (auto simp: same_instance_def Let_def split: option.splits)
  have "verify_outer this' m ss acc = verify_outer this m ss acc" for ss acc
    using s by (induction ss arbitrary: acc) (auto simp: same_instance_def inner Let_def split: sum.splits)
  then show ?thesis using s by (simp add: verifyStability_def same_instance_def)
qed

lemma solveStudentsPropose_eq:
  assumes "sp_loop this (initial (students this)) = (Inr st, this')"
    and "gs_inv pp rp k st" and "free st = []"
  shows "solveStudentsPropose this = (Inr (sp_matching st, proposalCounts this'), this')"
proof -
  have "invert (engaged st) = sp_matching st"
    using invert_distinct[OF gs_final_values(1)[OF assms(2,3)]] by (simp add: sp_matching_def)
  then show ?thesis using assms(1) by (simp add: solveStudentsPropose_def)
qed

lemma solveEstablishmentsPropose_eq:
  assumes "ep_loop this (initial (establishments this)) = Inr st"
    and "valid_instance this"
  shows "solveEstablishmentsPropose this =
           Inr (ep_matching st, map (\<lambda>e. (e, proposals st e)) (establishments this))"
proof -
  have "new_Set (establishments this) = establishments this"
    using valid_instanceD(4)[OF assms(2)] by (simp add: valid_side_def new_Set_distinct)
  then show ?thesis using assms(1)
    by (simp add: solveEstablishmentsPropose_def ep_matching_def)
qed

section \<open>Proposer-optimality\<close>

text \<open>
  A stable pairing: \<open>m\<close> gives each proposer its receiver and \<open>w\<close> each receiver its
  proposer, inverse to each other, and no proposer \<open>p\<close> and receiver \<open>q\<close> both rank the
  other strictly before their own partner.
\<close>

definition stable_pairing ::
  "nat list list \<Rightarrow> nat list list \<Rightarrow> nat \<Rightarrow> (nat \<Rightarrow> nat) \<Rightarrow> (nat \<Rightarrow> nat) \<Rightarrow> bool" where
  "stable_pairing pp rp k m w =
     ((\<forall>p<k. m p < k \<and> w (m p) = p)
      \<and> (\<forall>q<k. w q < k \<and> m (w q) = q)
      \<and> (\<forall>p<k. \<forall>q<k.
            \<not> (first_index (pp ! p) q < first_index (pp ! p) (m p)
               \<and> first_index (rp ! q) p < first_index (rp ! q) (w q))))"

text \<open>No proposer has yet been turned down, or dropped, by its partner in the pairing.\<close>

definition opt_inv ::
  "nat list list \<Rightarrow> nat \<Rightarrow> (nat \<Rightarrow> nat) \<Rightarrow> (jsval \<rightharpoonup> nat) \<Rightarrow> (nat \<Rightarrow> nat) \<Rightarrow> bool" where
  "opt_inv pp k m h A = (\<forall>p<k. \<forall>i<A p. pp ! p ! i = m p \<longrightarrow> h (Some (m p)) = Some p)"

lemma opt_invD:
  "opt_inv pp k m h A \<Longrightarrow> p < k \<Longrightarrow> i < A p \<Longrightarrow> pp ! p ! i = m p \<Longrightarrow> h (Some (m p)) = Some p"
  unfolding opt_inv_def by blast

lemma stable_pairingD:
  assumes "stable_pairing pp rp k m w"
  shows "p < k \<Longrightarrow> m p < k" and "p < k \<Longrightarrow> w (m p) = p"
    and "q < k \<Longrightarrow> w q < k" and "q < k \<Longrightarrow> m (w q) = q"
    and "p < k \<Longrightarrow> q < k \<Longrightarrow> first_index (rp ! q) p < first_index (rp ! q) (w q)
           \<Longrightarrow> first_index (pp ! p) (m p) \<le> first_index (pp ! p) q"
  using assms unfolding stable_pairing_def by (blast, blast, blast, blast, force)

text \<open>A free proposer has not reached its partner in the pairing yet.\<close>

lemma opt_inv_free_before:
  assumes inv: "abs_inv pp rp k F h A" and opt: "opt_inv pp k m h A" and p: "p \<in> F"
    and i: "i < A p"
  shows "pp ! p ! i \<noteq> m p"
proof
  assume "pp ! p ! i = m p"
  from opt_invD[OF opt abs_inv_free[OF inv p] i this] abs_inv_held[OF inv] p
  show False by blast
qed

lemma opt_inv_free_rank:
  assumes inv: "abs_inv pp rp k F h A" and opt: "opt_inv pp k m h A" and p: "p \<in> F"
    and pp: "valid_prefs k pp" and st: "stable_pairing pp rp k m w"
  shows "A p \<le> first_index (pp ! p) (m p)"
proof (rule ccontr)
  assume "\<not> A p \<le> first_index (pp ! p) (m p)"
  then have i: "first_index (pp ! p) (m p) < A p" by simp
  have pk: "p < k" using abs_inv_free[OF inv p] .
  have "pp ! p ! first_index (pp ! p) (m p) = m p"
    using valid_prefs_nth_first_index[OF pp pk stable_pairingD(1)[OF st pk]] .
  with opt_inv_free_before[OF inv opt p i] show False by simp
qed

lemma opt_inv_accept_free:
  assumes inv: "abs_inv pp rp k F h A" and opt: "opt_inv pp k m h A" and p: "p \<in> F"
    and q: "q = pp ! p ! A p" and none: "h (Some q) = None"
  shows "opt_inv pp k m (h(Some q \<mapsto> p)) (A(p := Suc (A p)))"
  unfolding opt_inv_def
proof (intro allI impI)
  fix p' i
  assume p': "p' < k" and i: "i < (A(p := Suc (A p))) p'" and eq: "pp ! p' ! i = m p'"
  show "(h(Some q \<mapsto> p)) (Some (m p')) = Some p'"
  proof (cases "p' = p")
    case True
    have "\<not> i < A p" using opt_inv_free_before[OF inv opt p] eq True by blast
    then have "i = A p" using i True by simp
    then show ?thesis using eq q True by simp
  next
    case False
    then have "i < A p'" using i by simp
    from opt_invD[OF opt p' this eq] none show ?thesis by auto
  qed
qed

lemma opt_inv_accept_bump:
  assumes inv: "abs_inv pp rp k F h A" and opt: "opt_inv pp k m h A" and p: "p \<in> F"
    and pp: "valid_prefs k pp" and st: "stable_pairing pp rp k m w"
    and q: "q = pp ! p ! A p" and held: "h (Some q) = Some c"
    and better: "first_index (rp ! q) p < first_index (rp ! q) c"
  shows "opt_inv pp k m (h(Some q \<mapsto> p)) (A(p := Suc (A p)))"
  unfolding opt_inv_def
proof (intro allI impI)
  fix p' i
  assume p': "p' < k" and i: "i < (A(p := Suc (A p))) p'" and eq: "pp ! p' ! i = m p'"
  have pk: "p < k" using abs_inv_free[OF inv p] .
  have Ap: "A p < k" using abs_inv_not_exhausted[OF inv pp p] .
  have qk: "q < k" using valid_prefs_nth[OF pp pk Ap] q by simp
  have c: "c < k" "c \<notin> F" "Some q = Some (pp ! c ! (A c - 1))"
    using abs_inv_held[OF inv held] by auto
  have mc: "m c \<noteq> q"
  proof
    assume "m c = q"
    then have "w q = c" using stable_pairingD(2)[OF st c(1)] by simp
    with stable_pairingD(5)[OF st pk qk] better
    have "first_index (pp ! p) (m p) \<le> first_index (pp ! p) q" by simp
    moreover have "first_index (pp ! p) q = A p"
      using valid_prefs_first_index_nth[OF pp pk Ap] q by simp
    ultimately have "first_index (pp ! p) (m p) = A p"
      using opt_inv_free_rank[OF inv opt p pp st] by simp
    then have "m p = q"
      using valid_prefs_nth_first_index[OF pp pk stable_pairingD(1)[OF st pk]] q by simp
    then have "w q = p" using stable_pairingD(2)[OF st pk] by simp
    with \<open>w q = c\<close> c(2) p show False by simp
  qed
  show "(h(Some q \<mapsto> p)) (Some (m p')) = Some p'"
  proof (cases "p' = p")
    case True
    have "\<not> i < A p" using opt_inv_free_before[OF inv opt p] eq True by blast
    then have "i = A p" using i True by simp
    then show ?thesis using eq q True by simp
  next
    case False
    then have "i < A p'" using i by simp
    from opt_invD[OF opt p' this eq] have h: "h (Some (m p')) = Some p'" .
    have "m p' \<noteq> q"
    proof
      assume "m p' = q"
      with h held have "p' = c" by simp
      with \<open>m p' = q\<close> mc show False by simp
    qed
    with h show ?thesis by simp
  qed
qed

lemma opt_inv_reject:
  assumes inv: "abs_inv pp rp k F h A" and opt: "opt_inv pp k m h A" and p: "p \<in> F"
    and pp: "valid_prefs k pp" and rp: "valid_prefs k rp" and st: "stable_pairing pp rp k m w"
    and q: "q = pp ! p ! A p" and held: "h (Some q) = Some c"
    and worse: "\<not> first_index (rp ! q) p < first_index (rp ! q) c"
  shows "opt_inv pp k m h (A(p := Suc (A p)))"
  unfolding opt_inv_def
proof (intro allI impI)
  fix p' i
  assume p': "p' < k" and i: "i < (A(p := Suc (A p))) p'" and eq: "pp ! p' ! i = m p'"
  have pk: "p < k" using abs_inv_free[OF inv p] .
  have Ap: "A p < k" using abs_inv_not_exhausted[OF inv pp p] .
  have qk: "q < k" using valid_prefs_nth[OF pp pk Ap] q by simp
  have c: "c < k" "c \<notin> F" "0 < A c" "Some q = Some (pp ! c ! (A c - 1))"
    using abs_inv_held[OF inv held] by auto
  have cp: "c \<noteq> p" using c(2) p by auto
  have Ac: "A c - 1 < k" using abs_inv_cursor[OF inv c(1)] c(3) by simp
  have mp: "m p \<noteq> q"
  proof
    assume "m p = q"
    then have wq: "w q = p" using stable_pairingD(2)[OF st pk] by simp
    have "first_index (rp ! q) c \<noteq> first_index (rp ! q) p"
      using valid_prefs_first_index_inj[OF rp qk c(1) pk] cp by blast
    with worse have "first_index (rp ! q) c < first_index (rp ! q) (w q)" using wq by simp
    from stable_pairingD(5)[OF st c(1) qk this]
    have le: "first_index (pp ! c) (m c) \<le> first_index (pp ! c) q" .
    have fq: "first_index (pp ! c) q = A c - 1"
      using valid_prefs_first_index_nth[OF pp c(1) Ac] c(4) by simp
    have mck: "m c < k" using stable_pairingD(1)[OF st c(1)] .
    have "m c \<noteq> q"
    proof
      assume "m c = q"
      then have "w q = c" using stable_pairingD(2)[OF st c(1)] by simp
      with wq cp show False by simp
    qed
    then have "first_index (pp ! c) (m c) \<noteq> first_index (pp ! c) q"
      using valid_prefs_first_index_inj[OF pp c(1) mck qk] by blast
    with le fq have lt: "first_index (pp ! c) (m c) < A c" by simp
    have "pp ! c ! first_index (pp ! c) (m c) = m c"
      using valid_prefs_nth_first_index[OF pp c(1) mck] .
    from opt_invD[OF opt c(1) lt this] have "h (Some (m c)) = Some c" .
    from abs_inv_held[OF inv this] c(4) \<open>m c \<noteq> q\<close> show False by simp
  qed
  show "h (Some (m p')) = Some p'"
  proof (cases "p' = p")
    case True
    have "\<not> i < A p" using opt_inv_free_before[OF inv opt p] eq True by blast
    then have "i = A p" using i True by simp
    with eq q True mp show ?thesis by simp
  next
    case False
    then have "i < A p'" using i by simp
    from opt_invD[OF opt p' this eq] show ?thesis .
  qed
qed

text \<open>When the loop ends, each proposer holds a receiver it ranks no later than its partner
  in the pairing.\<close>

lemma opt_inv_final:
  assumes inv: "abs_inv pp rp k {} h A" and opt: "opt_inv pp k m h A"
    and pp: "valid_prefs k pp" and st: "stable_pairing pp rp k m w" and p: "p < k"
  shows "first_index (pp ! p) (pp ! p ! (A p - 1)) \<le> first_index (pp ! p) (m p)"
proof (rule ccontr)
  assume a: "\<not> first_index (pp ! p) (pp ! p ! (A p - 1)) \<le> first_index (pp ! p) (m p)"
  from abs_final_held[OF inv p] have Ap: "0 < A p" "A p \<le> k" by auto
  then have A1: "A p - 1 < k" by simp
  have g: "first_index (pp ! p) (pp ! p ! (A p - 1)) = A p - 1"
    using valid_prefs_first_index_nth[OF pp p A1] .
  have mk: "m p < k" using stable_pairingD(1)[OF st p] .
  have lt: "first_index (pp ! p) (m p) < A p" using a g by simp
  have "pp ! p ! first_index (pp ! p) (m p) = m p"
    using valid_prefs_nth_first_index[OF pp p mk] .
  from opt_invD[OF opt p lt this] have "h (Some (m p)) = Some p" .
  from abs_inv_held[OF inv this] have "m p = pp ! p ! (A p - 1)" by simp
  with a show False by simp
qed

lemma gs_iteration_opt:
  assumes inv: "gs_inv pp rp k st" and pp: "valid_prefs k pp" and rp: "valid_prefs k rp"
    and st: "stable_pairing pp rp k m w"
    and opt: "opt_inv pp k m (map_of (engaged st)) (proposals st)"
    and p: "p \<in> set (free st)" and step: "gs_iteration pp rp k st p = Inr st'"
  shows "opt_inv pp k m (map_of (engaged st')) (proposals st')"
proof -
  let ?q = "pp ! p ! proposals st p"
  have ainv: "abs_inv pp rp k (set (free st)) (map_of (engaged st)) (proposals st)"
    using inv by (simp add: gs_inv_def)
  from gs_iteration_step[OF inv pp rp p] step
  have A: "proposals st' = (proposals st)(p := Suc (proposals st p))"
    and cases: "accepts_free st p ?q st' \<or> (\<exists>c. accepts_bump rp st p ?q c st')
                \<or> (\<exists>c. rejects rp st p ?q c st')"
    by auto
  from cases show ?thesis
  proof (elim disjE exE)
    assume a: "accepts_free st p ?q st'"
    then show ?thesis
      using opt_inv_accept_free[OF ainv opt p refl] A by (simp add: accepts_free_def)
  next
    fix c assume a: "accepts_bump rp st p ?q c st'"
    then show ?thesis
      using opt_inv_accept_bump[OF ainv opt p pp st refl, of c] A by (simp add: accepts_bump_def)
  next
    fix c assume a: "rejects rp st p ?q c st'"
    then show ?thesis
      using opt_inv_reject[OF ainv opt p pp rp st refl, of c] A by (simp add: rejects_def)
  qed
qed

lemma opt_inv_initial: "opt_inv pp k m (map_of (engaged (initial xs))) (proposals (initial xs))"
  by (simp add: opt_inv_def initial_def)

text \<open>The loops, with an additional invariant \<open>Q\<close> of the iterations.\<close>

lemma sp_loop_final_with:
  assumes v: "valid_instance this" and s0: "same_instance this this0"
    and inv: "gs_inv (studentPrefs this) (establishmentPrefs this) (engine_n this) st"
    and q: "Q this0 st"
    and step: "\<And>this1 st1 p st2 this2.
       same_instance this this1 \<Longrightarrow>
       gs_inv (studentPrefs this) (establishmentPrefs this) (engine_n this) st1 \<Longrightarrow>
       Q this1 st1 \<Longrightarrow> p \<in> set (free st1) \<Longrightarrow>
       sp_iteration this1 st1 p = (Inr st2, this2) \<Longrightarrow> Q this2 st2"
  shows "\<exists>st' this'. sp_loop this0 st = (Inr st', this') \<and> same_instance this this'
           \<and> gs_inv (studentPrefs this) (establishmentPrefs this) (engine_n this) st'
           \<and> Q this' st' \<and> free st' = []"
proof -
  let ?pp = "studentPrefs this" and ?rp = "establishmentPrefs this" and ?k = "engine_n this"
  let ?P = "\<lambda>this' st. same_instance this this' \<and> gs_inv ?pp ?rp ?k st \<and> Q this' st"
  have "\<exists>st' this'. sp_loop this0 st = (Inr st', this') \<and> ?P this' st' \<and> free st' = []"
  proof (rule sp_loop_invariant[where P = ?P])
    show "?P this0 st" using s0 inv q by simp
  next
    fix this1 st1 p rest
    assume P1: "?P this1 st1" and f: "free st1 = p # rest"
    have s: "same_instance this this1" and i: "gs_inv ?pp ?rp ?k st1" and q1: "Q this1 st1"
      using P1 by auto
    have p: "p \<in> set (free st1)" using f by simp
    from gs_iteration_step[OF i valid_instanceD(1,2)[OF v] p] obtain st' where
      st': "gs_iteration ?pp ?rp ?k st1 p = Inr st'" by blast
    then have fst: "fst (sp_iteration this1 st1 p) = Inr st'"
      using s by (simp add: sp_iteration_gs same_instance_def)
    define this' where "this' = snd (sp_iteration this1 st1 p)"
    have it: "sp_iteration this1 st1 p = (Inr st', this')"
      using fst by (simp add: this'_def prod_eq_iff)
    have "same_instance this this'"
      using s sp_iteration_same_instance[of this1 st1 p]
      by (simp add: same_instance_def this'_def)
    moreover have "gs_inv ?pp ?rp ?k st'"
      using gs_iteration_inv[OF i valid_instanceD(1,2)[OF v] p st'] .
    moreover have "Q this' st'" using step[OF s i q1 p it] .
    ultimately show "\<exists>st' this'. sp_iteration this1 st1 p = (Inr st', this') \<and> ?P this' st'"
      using it by blast
  qed
  then show ?thesis by blast
qed

lemma ep_loop_final_with:
  assumes v: "valid_instance this"
    and inv: "gs_inv (establishmentPrefs this) (studentPrefs this) (engine_n this) st"
    and q: "Q st"
    and step: "\<And>st1 p st2.
       gs_inv (establishmentPrefs this) (studentPrefs this) (engine_n this) st1 \<Longrightarrow>
       Q st1 \<Longrightarrow> p \<in> set (free st1) \<Longrightarrow>
       gs_iteration (establishmentPrefs this) (studentPrefs this) (engine_n this) st1 p = Inr st2
       \<Longrightarrow> Q st2"
  shows "\<exists>st'. ep_loop this st = Inr st'
           \<and> gs_inv (establishmentPrefs this) (studentPrefs this) (engine_n this) st'
           \<and> Q st' \<and> free st' = []"
proof -
  let ?pp = "establishmentPrefs this" and ?rp = "studentPrefs this" and ?k = "engine_n this"
  let ?P = "\<lambda>st. gs_inv ?pp ?rp ?k st \<and> Q st"
  have "\<exists>st'. ep_loop this st = Inr st' \<and> ?P st' \<and> free st' = []"
  proof (rule ep_loop_invariant[where P = ?P])
    show "?P st" using inv q by simp
  next
    fix st1 p rest
    assume P1: "?P st1" and f: "free st1 = p # rest"
    have i: "gs_inv ?pp ?rp ?k st1" and q1: "Q st1" using P1 by auto
    have p: "p \<in> set (free st1)" using f by simp
    from gs_iteration_step[OF i valid_instanceD(2,1)[OF v] p] obtain st' where
      st': "gs_iteration ?pp ?rp ?k st1 p = Inr st'" by blast
    from gs_iteration_inv[OF i valid_instanceD(2,1)[OF v] p st'] step[OF i q1 p st'] st'
    show "\<exists>st'. ep_iteration this st1 p = Inr st' \<and> ?P st'"
      by (simp add: ep_iteration_gs)
  qed
  then show ?thesis by blast
qed

subsection \<open>The entries of the returned matchings\<close>

lemma sp_matching_get:
  assumes inv: "gs_inv pp rp k st" and pp: "valid_prefs k pp" and fin: "free st = []"
    and s: "s < k"
  shows "Map_get (sp_matching st) (Some s) = Some (pp ! s ! (proposals st s - 1))"
    and "0 < proposals st s" and "proposals st s \<le> k"
proof -
  have ainv: "abs_inv pp rp k {} (map_of (engaged st)) (proposals st)"
    using inv fin by (simp add: gs_inv_def)
  from abs_final_held[OF ainv s]
  have g: "map_of (engaged st) (Some (pp ! s ! (proposals st s - 1))) = Some s"
    and A: "0 < proposals st s" "proposals st s \<le> k" by auto
  have "(Some s, Some (pp ! s ! (proposals st s - 1))) \<in> set (sp_matching st)"
    using map_of_SomeD[OF g] by (force simp: sp_matching_def)
  moreover have "distinct (map fst (sp_matching st))"
    using sp_matching_bijective[OF inv pp fin] by (simp add: bijective_matching_def)
  ultimately show "Map_get (sp_matching st) (Some s) = Some (pp ! s ! (proposals st s - 1))"
    by (simp add: Map_get_entry)
  show "0 < proposals st s" "proposals st s \<le> k" using A .
qed

lemma ep_matching_find:
  assumes inv: "gs_inv pp rp k st" and pp: "valid_prefs k pp" and fin: "free st = []"
    and e: "e < k"
  shows "find_key (ep_matching st) e = Some (pp ! e ! (proposals st e - 1))"
    and "Map_get (ep_matching st) (Some (pp ! e ! (proposals st e - 1))) = Some e"
    and "0 < proposals st e" and "proposals st e \<le> k"
proof -
  have ainv: "abs_inv pp rp k {} (map_of (engaged st)) (proposals st)"
    using inv fin by (simp add: gs_inv_def)
  from abs_final_held[OF ainv e]
  have g: "map_of (engaged st) (Some (pp ! e ! (proposals st e - 1))) = Some e"
    and A: "0 < proposals st e" "proposals st e \<le> k" by auto
  have ent: "(Some (pp ! e ! (proposals st e - 1)), Some e) \<in> set (ep_matching st)"
    using map_of_SomeD[OF g] by (force simp: ep_matching_def)
  have d: "distinct (map fst (ep_matching st))" "distinct (map snd (ep_matching st))"
    using ep_matching_bijective[OF inv pp fin] by (simp_all add: bijective_matching_def)
  show "find_key (ep_matching st) e = Some (pp ! e ! (proposals st e - 1))"
    using find_key_entry[OF d(2) ent] .
  show "Map_get (ep_matching st) (Some (pp ! e ! (proposals st e - 1))) = Some e"
    using Map_get_entry[OF d(1) ent] .
  show "0 < proposals st e" "proposals st e \<le> k" using A .
qed

subsection \<open>Stable matchings as stable pairings\<close>

definition partner_of :: "matching \<Rightarrow> nat \<Rightarrow> nat" where
  "partner_of m s = the (Map_get m (Some s))"

definition holder_of :: "matching \<Rightarrow> nat \<Rightarrow> nat" where
  "holder_of m e = the (find_key m e)"

lemma bijective_matching_lookup:
  assumes b: "bijective_matching k m"
  shows "s < k \<Longrightarrow> Map_get m (Some s) = Some (partner_of m s)"
    and "s < k \<Longrightarrow> partner_of m s < k"
    and "s < k \<Longrightarrow> holder_of m (partner_of m s) = s"
    and "e < k \<Longrightarrow> find_key m e = Some (holder_of m e)"
    and "e < k \<Longrightarrow> holder_of m e < k"
    and "e < k \<Longrightarrow> partner_of m (holder_of m e) = e"
proof -
  have d: "distinct (map fst m)" "distinct (map snd m)"
    using b by (simp_all add: bijective_matching_def)
  have get: "Map_get m (Some s) = Some e" "find_key m e = Some s" if "(Some s, Some e) \<in> set m" for s e
    using Map_get_entry[OF d(1) that] find_key_entry[OF d(2) that] by simp_all
  {
    assume "s < k"
    from bijective_matching_student[OF b this] obtain e where e: "e < k" "(Some s, Some e) \<in> set m"
      by blast
    from get[OF e(2)] e(1)
    show "Map_get m (Some s) = Some (partner_of m s)" "partner_of m s < k"
      "holder_of m (partner_of m s) = s"
      by (simp_all add: partner_of_def holder_of_def)
  }
  {
    assume "e < k"
    from bijective_matching_establishment[OF b this] obtain s where s: "s < k" "(Some s, Some e) \<in> set m"
      by blast
    from get[OF s(2)] s(1)
    show "find_key m e = Some (holder_of m e)" "holder_of m e < k"
      "partner_of m (holder_of m e) = e"
      by (simp_all add: partner_of_def holder_of_def)
  }
qed

lemma stable_matching_no_blocking:
  assumes v: "valid_instance this" and b: "bijective_matching (engine_n this) m"
    and stable: "verifyStability this m = Inr (True, [])"
    and s: "s < engine_n this" and e: "e < engine_n this"
  shows "\<not> (first_index (studentPrefs this ! s) e
               < first_index (studentPrefs this ! s) (partner_of m s)
            \<and> first_index (establishmentPrefs this ! e) s
               < first_index (establishmentPrefs this ! e) (holder_of m e))"
proof
  let ?sp = "studentPrefs this" and ?ep = "establishmentPrefs this" and ?k = "engine_n this"
  note sp = valid_instanceD(1)[OF v] and ep = valid_instanceD(2)[OF v]
  note l = bijective_matching_lookup[OF b]
  assume a: "first_index (?sp ! s) e < first_index (?sp ! s) (partner_of m s)
            \<and> first_index (?ep ! e) s < first_index (?ep ! e) (holder_of m e)"
  let ?j = "first_index (?sp ! s) e"
  have "indexOf (?sp ! s) (Map_get m (Some s)) = int (first_index (?sp ! s) (partner_of m s))"
    using l(1)[OF s] indexOf_member[OF valid_prefs_member[OF sp s l(2)[OF s]]] by simp
  then have j: "?j \<in> set (preferred_ranks this m s)"
    using a by (simp add: preferred_ranks_member)
  have je: "?sp ! s ! ?j = e" using valid_prefs_nth_first_index[OF sp s e] .
  from stable j s have "\<not> blocks this m s (?sp ! s ! ?j)"
    by (simp add: verifyStability_stable_iff[OF v])
  then show False
    using a je l(4)[OF e] indexOf_member[OF valid_prefs_member[OF ep e s]]
      indexOf_member[OF valid_prefs_member[OF ep e l(5)[OF e]]]
    by (simp add: blocks_def)
qed

lemma stable_pairingI:
  assumes "\<And>p. p < k \<Longrightarrow> m p < k" and "\<And>p. p < k \<Longrightarrow> w (m p) = p"
    and "\<And>q. q < k \<Longrightarrow> w q < k" and "\<And>q. q < k \<Longrightarrow> m (w q) = q"
    and "\<And>p q. p < k \<Longrightarrow> q < k \<Longrightarrow>
           \<not> (first_index (pp ! p) q < first_index (pp ! p) (m p)
              \<and> first_index (rp ! q) p < first_index (rp ! q) (w q))"
  shows "stable_pairing pp rp k m w"
  unfolding stable_pairing_def
proof (intro conjI allI impI)
  fix p assume "p < k" then show "m p < k" "w (m p) = p" using assms(1,2) by auto
next
  fix q assume "q < k" then show "w q < k" "m (w q) = q" using assms(3,4) by auto
next
  fix p q assume "p < k" "q < k"
  then show "\<not> (first_index (pp ! p) q < first_index (pp ! p) (m p)
              \<and> first_index (rp ! q) p < first_index (rp ! q) (w q))"
    by (rule assms(5))
qed

lemma stable_matching_pairings:
  assumes v: "valid_instance this" and b: "bijective_matching (engine_n this) m"
    and stable: "verifyStability this m = Inr (True, [])"
  shows "stable_pairing (studentPrefs this) (establishmentPrefs this) (engine_n this)
           (partner_of m) (holder_of m)"
    and "stable_pairing (establishmentPrefs this) (studentPrefs this) (engine_n this)
           (holder_of m) (partner_of m)"
proof -
  note l = bijective_matching_lookup[OF b]
  show "stable_pairing (studentPrefs this) (establishmentPrefs this) (engine_n this)
           (partner_of m) (holder_of m)"
    by (rule stable_pairingI) (use l stable_matching_no_blocking[OF v b stable] in simp_all)
  show "stable_pairing (establishmentPrefs this) (studentPrefs this) (engine_n this)
           (holder_of m) (partner_of m)"
  proof (rule stable_pairingI)
    fix p q assume "p < engine_n this" "q < engine_n this"
    from stable_matching_no_blocking[OF v b stable this(2,1)]
    show "\<not> (first_index (establishmentPrefs this ! p) q
                 < first_index (establishmentPrefs this ! p) (holder_of m p)
              \<and> first_index (studentPrefs this ! q) p
                 < first_index (studentPrefs this ! q) (partner_of m q))"
      by blast
  qed (use l in simp_all)
qed

section \<open>The stored proposal counts\<close>

lemma sp_iteration_counts:
  "sp_iteration this st s = (Inr st', this') \<Longrightarrow> proposals st s < engine_n this \<Longrightarrow>
     this' = this\<lparr>proposalCounts := js_incr_at (proposalCounts this) s\<rparr>"
  by (auto simp: sp_iteration_def Let_def split: if_splits option.splits)

text \<open>The local state of the students' loop does not depend on the stored counts.\<close>

lemma same_instance_sym: "same_instance this this' \<Longrightarrow> same_instance this' this"
  by (simp add: same_instance_def)

lemma same_instance_trans:
  "same_instance this this' \<Longrightarrow> same_instance this' this'' \<Longrightarrow> same_instance this this''"
  by (simp add: same_instance_def)

lemma sp_iteration_state_indep:
  "same_instance this this1 \<Longrightarrow> fst (sp_iteration this1 st p) = fst (sp_iteration this st p)"
  by (simp add: sp_iteration_gs same_instance_def)

lemma sp_loop_state_indep:
  "same_instance this this1 \<Longrightarrow> fst (sp_loop this1 st) = fst (sp_loop this st)"
proof (induction this st arbitrary: this1 rule: sp_loop.induct)
  case (1 this st)
  show ?case
  proof (cases "free st")
    case Nil
    then show ?thesis by (simp add: sp_loop.simps[of this st] sp_loop.simps[of this1 st])
  next
    case (Cons p rest)
    obtain r this' where r: "sp_iteration this st p = (r, this')" by (cases "sp_iteration this st p")
    obtain r1 this1' where r1: "sp_iteration this1 st p = (r1, this1')"
      by (cases "sp_iteration this1 st p")
    have eq: "r1 = r" using sp_iteration_state_indep[OF "1.prems", of st p] r r1 by simp
    have s': "same_instance this' this1'"
      using sp_iteration_same_instance[of this st p] sp_iteration_same_instance[of this1 st p]
        r r1 "1.prems"
      by (simp add: same_instance_def)
    show ?thesis
    proof (cases r)
      case (Inl err)
      then show ?thesis using Cons r r1 eq
        by (simp add: sp_loop.simps[of this st] sp_loop.simps[of this1 st])
    next
      case (Inr st')
      from "1.IH"[OF Cons r[symmetric] Inr s']
      show ?thesis using Cons r r1 eq Inr
        by (simp add: sp_loop.simps[of this st] sp_loop.simps[of this1 st])
    qed
  qed
qed

text \<open>Each stored count has been incremented once per proposal of its student.\<close>

definition counted :: "jsnum option list \<Rightarrow> engine \<Rightarrow> state \<Rightarrow> bool" where
  "counted c0 this st =
     (length (proposalCounts this) = length c0
      \<and> (\<forall>s<length c0. proposalCounts this ! s = (js_succ ^^ proposals st s) (c0 ! s)))"

lemma counted_initial: "counted (proposalCounts this) this (initial xs)"
  by (simp add: counted_def initial_def)

lemma counted_step:
  assumes c: "counted c0 this1 st1" and p: "p < length c0"
    and e: "this2 = this1\<lparr>proposalCounts := js_incr_at (proposalCounts this1) p\<rparr>"
    and A: "proposals st2 = (proposals st1)(p := Suc (proposals st1 p))"
  shows "counted c0 this2 st2"
proof -
  have len: "length (proposalCounts this1) = length c0" using c by (simp add: counted_def)
  then have upd: "proposalCounts this2 = (proposalCounts this1)[p := js_succ (proposalCounts this1 ! p)]"
    using e p by (simp add: js_incr_at_def)
  show ?thesis
    unfolding counted_def
  proof (intro conjI allI impI)
    show "length (proposalCounts this2) = length c0" using upd len by simp
  next
    fix s assume s: "s < length c0"
    then have old: "proposalCounts this1 ! s = (js_succ ^^ proposals st1 s) (c0 ! s)"
      using c by (simp add: counted_def)
    show "proposalCounts this2 ! s = (js_succ ^^ proposals st2 s) (c0 ! s)"
      using upd len s old A by (cases "s = p") simp_all
  qed
qed

lemma sp_result_counted:
  assumes v: "valid_instance this" and len: "engine_n this \<le> length (proposalCounts this)"
  shows "\<exists>st this'. sp_loop this (initial (students this)) = (Inr st, this')
           \<and> solveStudentsPropose this = (Inr (sp_matching st, proposalCounts this'), this')
           \<and> same_instance this this'
           \<and> gs_inv (studentPrefs this) (establishmentPrefs this) (engine_n this) st
           \<and> counted (proposalCounts this) this' st \<and> free st = []"
proof -
  let ?sp = "studentPrefs this" and ?ep = "establishmentPrefs this" and ?k = "engine_n this"
  let ?Q = "counted (proposalCounts this)"
  note sp = valid_instanceD(1)[OF v] and ep = valid_instanceD(2)[OF v]
  have "\<exists>st this'. sp_loop this (initial (students this)) = (Inr st, this')
          \<and> same_instance this this' \<and> gs_inv ?sp ?ep ?k st \<and> ?Q this' st \<and> free st = []"
  proof (rule sp_loop_final_with[where Q = ?Q, OF v same_instance_refl
        gs_inv_initial[OF valid_instanceD(3)[OF v]]])
    show "?Q this (initial (students this))" by (rule counted_initial)
  next
    fix this1 st1 p st2 this2
    assume s: "same_instance this this1" and i: "gs_inv ?sp ?ep ?k st1" and q: "?Q this1 st1"
      and p: "p \<in> set (free st1)" and it: "sp_iteration this1 st1 p = (Inr st2, this2)"
    have ainv: "abs_inv ?sp ?ep ?k (set (free st1)) (map_of (engaged st1)) (proposals st1)"
      using i by (simp add: gs_inv_def)
    have pk: "p < ?k" using abs_inv_free[OF ainv p] .
    have Ap: "proposals st1 p < engine_n this1"
      using abs_inv_not_exhausted[OF ainv sp p] s by (simp add: same_instance_def)
    have "gs_iteration ?sp ?ep ?k st1 p = Inr st2"
      using sp_iteration_gs[of this1 st1 p] it s by (simp add: same_instance_def)
    with gs_iteration_step[OF i sp ep p]
    have A: "proposals st2 = (proposals st1)(p := Suc (proposals st1 p))" by auto
    from counted_step[OF q _ sp_iteration_counts[OF it Ap] A] pk len
    show "?Q this2 st2" by simp
  qed
  then obtain st this' where
    loop: "sp_loop this (initial (students this)) = (Inr st, this')"
    and s: "same_instance this this'"
    and inv: "gs_inv ?sp ?ep ?k st" and c: "?Q this' st" and fin: "free st = []" by blast
  with solveStudentsPropose_eq[OF loop inv fin] show ?thesis by blast
qed

section \<open>The concrete scenarios\<close>

text \<open>
  C4, as the scenario is specified: students-propose returns the matching \<open>{0 \<rightarrow> 0, 1 \<rightarrow> 1}\<close>,
  with student satisfaction 100 and egalitarian cost 1. The code returns another matching:
  student 0 is not matched to establishment 0 but to establishment 1, student 1 to
  establishment 0; the matching named by the scenario has the blocking pair of student 1 and
  establishment 0; and the students' satisfaction of the returned matching is 50, its
  egalitarian cost 2.
\<close>

theorem scenario_not_identity:
  "Map_get (returned_matching (fst (solveStudentsPropose scenario))) (Some 0) \<noteq> Some 0
   \<and> Map_get (returned_matching (fst (solveStudentsPropose scenario))) (Some 1) \<noteq> Some 1
   \<and> verifyStability scenario [(Some 0, Some 0), (Some 1, Some 1)] = Inr (False, [(1, 0)])
   \<and> map_sum id (satisfaction \<circ> students_report)
         (fullAnalysis scenario_analyzer (returned_matching (fst (solveStudentsPropose scenario))))
       \<noteq> Inr (Fin 100)
   \<and> map_sum id (egalitarian \<circ> overall)
         (fullAnalysis scenario_analyzer (returned_matching (fst (solveStudentsPropose scenario))))
       \<noteq> Inr 1"
  by code_simp

text \<open>
  C4, amended: on the scenario students-propose returns the matching
  \<open>{1 \<rightarrow> 0, 0 \<rightarrow> 1}\<close> (entries in this order) after two proposals of student 0 and one of
  student 1; \<open>verifyStability\<close> reports it stable with no blocking pair; and \<open>fullAnalysis\<close>
  yields average rank 1/2, top-1 percentage 50, top-3 percentage 100 and satisfaction 50 for
  either side, egalitarian cost 2 and side-balance score 0.
\<close>

theorem scenario_result:
  "fst (solveStudentsPropose scenario) = Inr (scenario_matching, [Some (Fin 2), Some (Fin 1)])
   \<and> verifyStability scenario scenario_matching = Inr (True, [])
   \<and> fullAnalysis scenario_analyzer scenario_matching =
       Inr \<lparr> students_report =
               \<lparr> avgRank = Fin (1 / 2), top1 = Fin 50, top3 = Fin 100, satisfaction = Fin 50 \<rparr>,
             establishments_report =
               \<lparr> avgRank = Fin (1 / 2), top1 = Fin 50, top3 = Fin 100, satisfaction = Fin 50 \<rparr>,
             overall = \<lparr> egalitarian = 2, equality = Fin 0 \<rparr> \<rparr>"
  by code_simp

text \<open>For \<open>n > 1\<close> the score is the formula \<open>100 * (1 - rank / (n - 1))\<close>, and a rank
  between \<open>0\<close> and \<open>n - 1\<close> gives a score between \<open>0\<close> and \<open>100\<close>.\<close>

lemma score_formula:
  "1 < k \<Longrightarrow> score k rank = Fin (100 * (1 - of_int rank / (of_nat k - 1)))"
  by (simp add: score_def jsub_def of_rank_def)

lemma score_bounds:
  assumes "1 < k" and "0 \<le> rank" and "rank \<le> int k - 1"
  shows "\<exists>x. score k rank = Fin x \<and> 0 \<le> x \<and> x \<le> 100"
proof -
  have pos: "(0 :: rat) < of_nat k - 1" using assms(1) by simp
  have "(of_int rank :: rat) \<le> of_nat k - 1"
    using assms(3) by (metis of_int_le_iff of_int_of_nat_eq of_int_diff of_int_1)
  then have "(of_int rank :: rat) / (of_nat k - 1) \<le> 1" using pos by (simp add: divide_le_eq)
  moreover have "0 \<le> (of_int rank :: rat) / (of_nat k - 1)" using pos assms(2) by simp
  ultimately show ?thesis using score_formula[OF assms(1), of rank] by simp
qed

text \<open>
  C5, at \<open>n = 1\<close>: the participant's rank is 0 and \<open>this.n - 1\<close> is 0, so the score is
  \<open>100 * (1 - 0 / 0)\<close>, which is \<^verbatim>\<open>NaN\<close>, and so are both sides' satisfaction scores and the
  side-balance score; the other metrics are the best case.
\<close>

theorem trivial_satisfaction_NaN:
  "score 1 0 = NaN
   \<and> satisfactionScore trivial_analyzer [[0]] [(Some 0, Some 0)] True = Inr NaN
   \<and> satisfactionScore trivial_analyzer [[0]] [(Some 0, Some 0)] False = Inr NaN
   \<and> fullAnalysis trivial_analyzer [(Some 0, Some 0)] =
       Inr \<lparr> students_report =
               \<lparr> avgRank = Fin 0, top1 = Fin 100, top3 = Fin 100, satisfaction = NaN \<rparr>,
             establishments_report =
               \<lparr> avgRank = Fin 0, top1 = Fin 100, top3 = Fin 100, satisfaction = NaN \<rparr>,
             overall = \<lparr> egalitarian = 0, equality = NaN \<rparr> \<rparr>"
  by code_simp

section \<open>Termination, bijection and stability\<close>

text \<open>
  C2: on every valid instance either solve method returns (it does not throw, and as a
  total function it terminates), and the matching it returns is a bijection between the
  \<open>n\<close> students and the \<open>n\<close> establishments: its keys are the students, each once, and its
  values the establishments, each once.
\<close>

theorem solve_bijection:
  assumes "valid_instance this"
  shows "(\<exists>m counts this'. solveStudentsPropose this = (Inr (m, counts), this')
            \<and> bijective_matching (engine_n this) m)
       \<and> (\<exists>m cursors. solveEstablishmentsPropose this = Inr (m, cursors)
            \<and> bijective_matching (engine_n this) m)"
proof
  from sp_result[OF assms] obtain st this' where
    "solveStudentsPropose this = (Inr (sp_matching st, proposalCounts this'), this')"
    "gs_inv (studentPrefs this) (establishmentPrefs this) (engine_n this) st" "free st = []"
    by blast
  with sp_matching_bijective[OF this(2) valid_instanceD(1)[OF assms] this(3)]
  show "\<exists>m counts this'. solveStudentsPropose this = (Inr (m, counts), this')
            \<and> bijective_matching (engine_n this) m" by blast
next
  from ep_result[OF assms] obtain st where
    "solveEstablishmentsPropose this =
       Inr (ep_matching st, map (\<lambda>e. (e, proposals st e)) (establishments this))"
    "gs_inv (establishmentPrefs this) (studentPrefs this) (engine_n this) st" "free st = []"
    by blast
  with ep_matching_bijective[OF this(2) valid_instanceD(2)[OF assms] this(3)]
  show "\<exists>m cursors. solveEstablishmentsPropose this = Inr (m, cursors)
            \<and> bijective_matching (engine_n this) m" by blast
qed

theorem solve_bijection_witness:
  "valid_instance scenario
   \<and> (\<exists>m counts this'. solveStudentsPropose scenario = (Inr (m, counts), this')
        \<and> bijective_matching (engine_n scenario) m)
   \<and> (\<exists>m cursors. solveEstablishmentsPropose scenario = Inr (m, cursors)
        \<and> bijective_matching (engine_n scenario) m)"
proof -
  have v: "valid_instance scenario" by code_simp
  from solve_bijection[OF v] v show ?thesis by blast
qed

text \<open>
  C1: on every valid instance, \<open>verifyStability\<close> applied to the matching that either solve
  method returns reports \<open>stable = true\<close> with an empty list of blocking pairs. The
  verifier is run on the engine as the solve call leaves it.
\<close>

theorem solve_stable:
  assumes "valid_instance this"
  shows "(\<exists>m counts this'. solveStudentsPropose this = (Inr (m, counts), this')
            \<and> verifyStability this' m = Inr (True, []))
       \<and> (\<exists>m cursors. solveEstablishmentsPropose this = Inr (m, cursors)
            \<and> verifyStability this m = Inr (True, []))"
proof
  from sp_result[OF assms] obtain st this' where
    r: "solveStudentsPropose this = (Inr (sp_matching st, proposalCounts this'), this')"
    and s: "same_instance this this'"
    and i: "gs_inv (studentPrefs this) (establishmentPrefs this) (engine_n this) st"
    and f: "free st = []"
    by blast
  have "verifyStability this' (sp_matching st) = Inr (True, [])"
    using sp_final_stable[OF assms i f] verifyStability_same_instance[OF s] by simp
  with r show "\<exists>m counts this'. solveStudentsPropose this = (Inr (m, counts), this')
            \<and> verifyStability this' m = Inr (True, [])" by blast
next
  from ep_result[OF assms] obtain st where
    r: "solveEstablishmentsPropose this =
       Inr (ep_matching st, map (\<lambda>e. (e, proposals st e)) (establishments this))"
    and i: "gs_inv (establishmentPrefs this) (studentPrefs this) (engine_n this) st"
    and f: "free st = []"
    by blast
  from ep_final_stable[OF assms i f] r
  show "\<exists>m cursors. solveEstablishmentsPropose this = Inr (m, cursors)
            \<and> verifyStability this m = Inr (True, [])" by blast
qed

theorem solve_stable_witness:
  "valid_instance triangle
   \<and> (\<exists>m counts this'. solveStudentsPropose triangle = (Inr (m, counts), this')
        \<and> verifyStability this' m = Inr (True, []))
   \<and> (\<exists>m cursors. solveEstablishmentsPropose triangle = Inr (m, cursors)
        \<and> verifyStability triangle m = Inr (True, []))"
proof -
  have v: "valid_instance triangle" by code_simp
  from solve_stable[OF v] v show ?thesis by blast
qed

section \<open>The exhausted-proposer branch\<close>

text \<open>
  The state at the head of the loop after \<open>i\<close> iterations, if the loop runs that long
  without throwing.
\<close>

fun sp_visits :: "nat \<Rightarrow> engine \<Rightarrow> state \<Rightarrow> (engine \<times> state) option" where
  "sp_visits 0 this st = Some (this, st)"
| "sp_visits (Suc i) this st =
     (case free st of
        [] \<Rightarrow> None
      | student # _ \<Rightarrow>
          (case sp_iteration this st student of
             (Inl err, this') \<Rightarrow> None
           | (Inr st', this') \<Rightarrow> sp_visits i this' st'))"

fun ep_visits :: "nat \<Rightarrow> engine \<Rightarrow> state \<Rightarrow> (engine \<times> state) option" where
  "ep_visits 0 this st = Some (this, st)"
| "ep_visits (Suc i) this st =
     (case free st of
        [] \<Rightarrow> None
      | establishment # _ \<Rightarrow>
          (case ep_iteration this st establishment of
             Inl err \<Rightarrow> None
           | Inr st' \<Rightarrow> ep_visits i this st'))"

text \<open>
  The test \<^verbatim>\<open>proposalIndex >= this.n\<close> of the iteration that is about to run is false:
  the proposer \<open>Array.from(free)[0]\<close> has a cursor below \<open>n\<close>.
\<close>

definition cursor_in_range :: "(engine \<times> state) option \<Rightarrow> bool" where
  "cursor_in_range v =
     (case v of
        None \<Rightarrow> True
      | Some (this, st) \<Rightarrow>
          (case free st of [] \<Rightarrow> True | proposer # _ \<Rightarrow> proposals st proposer < engine_n this))"

text \<open>The visited states are those of the loop: it continues from each of them.\<close>

lemma sp_loop_visits:
  "sp_visits i this st = Some (this', st') \<Longrightarrow> sp_loop this st = sp_loop this' st'"
proof (induction i arbitrary: this st)
  case 0
  then show ?case by simp
next
  case (Suc i)
  then show ?case
    by (subst sp_loop.simps) (auto split: list.splits prod.splits sum.splits)
qed

lemma ep_loop_visits:
  "ep_visits i this st = Some (this', st') \<Longrightarrow> this' = this \<and> ep_loop this st = ep_loop this st'"
proof (induction i arbitrary: st)
  case 0
  then show ?case by simp
next
  case (Suc i)
  then show ?case
    by (subst ep_loop.simps) (auto split: list.splits sum.splits)
qed

text \<open>
  On every input, the proposers in \<open>free\<close> and in \<open>engaged\<close> are among those the loop
  started with: every proposer whose cursor is read is a key of the source's \<open>proposals\<close>
  Map.
\<close>

lemma gs_iteration_proposers:
  assumes "gs_iteration pp rp k st p = Inr st'" and "p \<in> set (free st)"
  shows "set (free st') \<union> snd ` set (engaged st') \<subseteq> set (free st) \<union> snd ` set (engaged st)"
  using assms
  by (auto simp: gs_iteration_def Let_def dest: map_of_value values_Map_setD
           split: if_splits option.splits)

lemma sp_visits_proposers:
  "sp_visits i this st = Some (this', st') \<Longrightarrow>
     set (free st') \<union> snd ` set (engaged st') \<subseteq> set (free st) \<union> snd ` set (engaged st)"
proof (induction i arbitrary: this st)
  case 0
  then show ?case by simp
next
  case (Suc i)
  from Suc.prems obtain p rest st2 this2 where
    f: "free st = p # rest" and it: "sp_iteration this st p = (Inr st2, this2)"
    and rest: "sp_visits i this2 st2 = Some (this', st')"
    by (auto split: list.splits prod.splits sum.splits)
  have "gs_iteration (studentPrefs this) (establishmentPrefs this) (engine_n this) st p = Inr st2"
    using sp_iteration_gs[of this st p] it by simp
  from gs_iteration_proposers[OF this] f
  have "set (free st2) \<union> snd ` set (engaged st2) \<subseteq> set (free st) \<union> snd ` set (engaged st)"
    by simp
  with Suc.IH[OF rest] show ?case by blast
qed

lemma ep_visits_proposers:
  "ep_visits i this st = Some (this', st') \<Longrightarrow>
     set (free st') \<union> snd ` set (engaged st') \<subseteq> set (free st) \<union> snd ` set (engaged st)"
proof (induction i arbitrary: st)
  case 0
  then show ?case by simp
next
  case (Suc i)
  from Suc.prems obtain p rest st2 where
    f: "free st = p # rest" and it: "ep_iteration this st p = Inr st2"
    and rest: "ep_visits i this st2 = Some (this', st')"
    by (auto split: list.splits sum.splits)
  from gs_iteration_proposers[OF it[unfolded ep_iteration_gs]] f
  have "set (free st2) \<union> snd ` set (engaged st2) \<subseteq> set (free st) \<union> snd ` set (engaged st)"
    by simp
  with Suc.IH[OF rest] show ?case by blast
qed

lemma sp_cursor_keys:
  "sp_visits i this (initial (students this)) = Some (this', st) \<Longrightarrow>
     set (free st) \<subseteq> set (students this)"
  using sp_visits_proposers[of i this "initial (students this)" this' st]
  by (simp add: initial_def set_new_Set)

lemma ep_cursor_keys:
  "ep_visits i this (initial (establishments this)) = Some (this', st) \<Longrightarrow>
     set (free st) \<subseteq> set (establishments this)"
  using ep_visits_proposers[of i this "initial (establishments this)" this' st]
  by (simp add: initial_def set_new_Set)

lemma sp_visits_inv:
  assumes v: "valid_instance this"
    and "same_instance this this1"
    and "gs_inv (studentPrefs this) (establishmentPrefs this) (engine_n this) st1"
    and "sp_visits i this1 st1 = Some (this', st')"
  shows "same_instance this this'
         \<and> gs_inv (studentPrefs this) (establishmentPrefs this) (engine_n this) st'"
  using assms(2-)
proof (induction i arbitrary: this1 st1)
  case 0
  then show ?case by simp
next
  case (Suc i)
  let ?pp = "studentPrefs this" and ?rp = "establishmentPrefs this" and ?k = "engine_n this"
  from Suc.prems(3) obtain p rest st2 this2 where
    f: "free st1 = p # rest" and it: "sp_iteration this1 st1 p = (Inr st2, this2)"
    and rest: "sp_visits i this2 st2 = Some (this', st')"
    by (auto split: list.splits prod.splits sum.splits)
  have p: "p \<in> set (free st1)" using f by simp
  have "gs_iteration ?pp ?rp ?k st1 p = Inr st2"
    using sp_iteration_gs[of this1 st1 p] it Suc.prems(1) by (simp add: same_instance_def)
  from gs_iteration_inv[OF Suc.prems(2) valid_instanceD(1,2)[OF v] p this]
  have i2: "gs_inv ?pp ?rp ?k st2" .
  have "same_instance this this2"
    using sp_iteration_same_instance[of this1 st1 p] it Suc.prems(1)
    by (simp add: same_instance_def)
  from Suc.IH[OF this i2 rest] show ?case .
qed

lemma ep_visits_inv:
  assumes v: "valid_instance this"
    and "gs_inv (establishmentPrefs this) (studentPrefs this) (engine_n this) st1"
    and "ep_visits i this st1 = Some (this', st')"
  shows "this' = this
         \<and> gs_inv (establishmentPrefs this) (studentPrefs this) (engine_n this) st'"
  using assms(2-)
proof (induction i arbitrary: st1)
  case 0
  then show ?case by simp
next
  case (Suc i)
  let ?pp = "establishmentPrefs this" and ?rp = "studentPrefs this" and ?k = "engine_n this"
  from Suc.prems(2) obtain p rest st2 where
    f: "free st1 = p # rest" and it: "ep_iteration this st1 p = Inr st2"
    and rest: "ep_visits i this st2 = Some (this', st')"
    by (auto split: list.splits sum.splits)
  have p: "p \<in> set (free st1)" using f by simp
  have "gs_iteration ?pp ?rp ?k st1 p = Inr st2"
    using it by (simp add: ep_iteration_gs)
  from gs_iteration_inv[OF Suc.prems(1) valid_instanceD(2,1)[OF v] p this]
  have i2: "gs_inv ?pp ?rp ?k st2" .
  from Suc.IH[OF i2 rest] show ?case .
qed

lemma gs_inv_cursor_in_range:
  assumes "gs_inv pp rp k st" and "valid_prefs k pp" and "engine_n this = k"
  shows "cursor_in_range (Some (this, st))"
proof (cases "free st")
  case Nil
  then show ?thesis by (simp add: cursor_in_range_def)
next
  case (Cons p rest)
  have "abs_inv pp rp k (set (free st)) (map_of (engaged st)) (proposals st)"
    using assms(1) by (simp add: gs_inv_def)
  from abs_inv_not_exhausted[OF this assms(2), of p] Cons assms(3)
  show ?thesis by (simp add: cursor_in_range_def)
qed

text \<open>
  C8: on a valid instance, at every head of either solve loop that an execution reaches,
  the proposer taken from \<open>free\<close> has a cursor below \<open>n\<close>; so the branch
  \<^verbatim>\<open>if (proposalIndex >= this.n) { free.delete(...); continue; }\<close> is never taken.
\<close>

theorem exhausted_branch_unreachable:
  assumes "valid_instance this"
  shows "cursor_in_range (sp_visits i this (initial (students this)))
       \<and> cursor_in_range (ep_visits i this (initial (establishments this)))"
proof
  show "cursor_in_range (sp_visits i this (initial (students this)))"
  proof (cases "sp_visits i this (initial (students this))")
    case None
    then show ?thesis by (simp add: cursor_in_range_def)
  next
    case (Some a)
    obtain this' st' where a: "a = (this', st')" by (cases a)
    from sp_visits_inv[OF assms same_instance_refl gs_inv_initial[OF valid_instanceD(3)[OF assms]]
        Some[unfolded a]]
    have "same_instance this this'"
      "gs_inv (studentPrefs this) (establishmentPrefs this) (engine_n this) st'" by auto
    from gs_inv_cursor_in_range[OF this(2) valid_instanceD(1)[OF assms], of this'] this(1)
    show ?thesis using Some a by (simp add: same_instance_def)
  qed
next
  show "cursor_in_range (ep_visits i this (initial (establishments this)))"
  proof (cases "ep_visits i this (initial (establishments this))")
    case None
    then show ?thesis by (simp add: cursor_in_range_def)
  next
    case (Some a)
    obtain this' st' where a: "a = (this', st')" by (cases a)
    from ep_visits_inv[OF assms gs_inv_initial[OF valid_instanceD(4)[OF assms]] Some[unfolded a]]
    have "this' = this"
      "gs_inv (establishmentPrefs this) (studentPrefs this) (engine_n this) st'" by auto
    from gs_inv_cursor_in_range[OF this(2) valid_instanceD(2)[OF assms], of this]
    show ?thesis using Some a \<open>this' = this\<close> by simp
  qed
qed

theorem exhausted_branch_unreachable_witness:
  "valid_instance scenario
   \<and> sp_visits 2 scenario (initial (students scenario)) \<noteq> None
   \<and> cursor_in_range (sp_visits 2 scenario (initial (students scenario)))
   \<and> ep_visits 2 scenario (initial (establishments scenario)) \<noteq> None
   \<and> cursor_in_range (ep_visits 2 scenario (initial (establishments scenario)))"
proof -
  have v: "valid_instance scenario" by code_simp
  have "sp_visits 2 scenario (initial (students scenario)) \<noteq> None" by code_simp
  moreover have "ep_visits 2 scenario (initial (establishments scenario)) \<noteq> None" by code_simp
  ultimately show ?thesis using exhausted_branch_unreachable[OF v, of 2] v by blast
qed

lemma sp_optimal:
  assumes v: "valid_instance this" and b: "bijective_matching (engine_n this) m'"
    and stable: "verifyStability this m' = Inr (True, [])"
  shows "\<exists>m counts this'. solveStudentsPropose this = (Inr (m, counts), this')
           \<and> (\<forall>s<engine_n this.
                 0 \<le> indexOf (studentPrefs this ! s) (Map_get m (Some s))
                 \<and> indexOf (studentPrefs this ! s) (Map_get m (Some s))
                     \<le> indexOf (studentPrefs this ! s) (Map_get m' (Some s)))"
proof -
  let ?sp = "studentPrefs this" and ?ep = "establishmentPrefs this" and ?k = "engine_n this"
  let ?Q = "\<lambda>(this' :: engine) st. opt_inv ?sp ?k (partner_of m') (map_of (engaged st)) (proposals st)"
  note sp = valid_instanceD(1)[OF v] and ep = valid_instanceD(2)[OF v]
  note pairing = stable_matching_pairings(1)[OF v b stable]
  have "\<exists>st this'. sp_loop this (initial (students this)) = (Inr st, this')
          \<and> same_instance this this' \<and> gs_inv ?sp ?ep ?k st \<and> ?Q this' st \<and> free st = []"
  proof (rule sp_loop_final_with[where Q = ?Q, OF v same_instance_refl
        gs_inv_initial[OF valid_instanceD(3)[OF v]]])
    show "?Q this (initial (students this))" by (rule opt_inv_initial)
  next
    fix this1 st1 p st2 this2
    assume s: "same_instance this this1" and i: "gs_inv ?sp ?ep ?k st1" and q: "?Q this1 st1"
      and p: "p \<in> set (free st1)" and it: "sp_iteration this1 st1 p = (Inr st2, this2)"
    have "gs_iteration ?sp ?ep ?k st1 p = Inr st2"
      using sp_iteration_gs[of this1 st1 p] it s by (simp add: same_instance_def)
    from gs_iteration_opt[OF i sp ep pairing q p this] show "?Q this2 st2" .
  qed
  then obtain st this' where
    loop: "sp_loop this (initial (students this)) = (Inr st, this')"
    and inv: "gs_inv ?sp ?ep ?k st" and opt: "?Q this' st" and fin: "free st = []" by blast
  have ainv: "abs_inv ?sp ?ep ?k {} (map_of (engaged st)) (proposals st)"
    using inv fin by (simp add: gs_inv_def)
  have "0 \<le> indexOf (?sp ! s) (Map_get (sp_matching st) (Some s))
        \<and> indexOf (?sp ! s) (Map_get (sp_matching st) (Some s))
             \<le> indexOf (?sp ! s) (Map_get m' (Some s))" if s: "s < ?k" for s
  proof -
    let ?g = "?sp ! s ! (proposals st s - 1)"
    note g = sp_matching_get[OF inv sp fin s]
    have gk: "?g < ?k" using valid_prefs_nth[OF sp s, of "proposals st s - 1"] g(2,3) by simp
    note l = bijective_matching_lookup(1,2)[OF b s]
    have "indexOf (?sp ! s) (Map_get (sp_matching st) (Some s)) = int (first_index (?sp ! s) ?g)"
      using g(1) indexOf_member[OF valid_prefs_member[OF sp s gk]] by simp
    moreover have "indexOf (?sp ! s) (Map_get m' (Some s))
                    = int (first_index (?sp ! s) (partner_of m' s))"
      using l(1) indexOf_member[OF valid_prefs_member[OF sp s l(2)]] by simp
    ultimately show ?thesis using opt_inv_final[OF ainv opt sp pairing s] by simp
  qed
  with solveStudentsPropose_eq[OF loop inv fin] show ?thesis by blast
qed

lemma ep_optimal:
  assumes v: "valid_instance this" and b: "bijective_matching (engine_n this) m'"
    and stable: "verifyStability this m' = Inr (True, [])"
  shows "\<exists>m cursors. solveEstablishmentsPropose this = Inr (m, cursors)
           \<and> (\<forall>e<engine_n this.
                 0 \<le> indexOf (establishmentPrefs this ! e) (find_key m e)
                 \<and> indexOf (establishmentPrefs this ! e) (find_key m e)
                     \<le> indexOf (establishmentPrefs this ! e) (find_key m' e))"
proof -
  let ?sp = "studentPrefs this" and ?ep = "establishmentPrefs this" and ?k = "engine_n this"
  let ?Q = "\<lambda>st. opt_inv ?ep ?k (holder_of m') (map_of (engaged st)) (proposals st)"
  note sp = valid_instanceD(1)[OF v] and ep = valid_instanceD(2)[OF v]
  note pairing = stable_matching_pairings(2)[OF v b stable]
  have "\<exists>st. ep_loop this (initial (establishments this)) = Inr st
          \<and> gs_inv ?ep ?sp ?k st \<and> ?Q st \<and> free st = []"
  proof (rule ep_loop_final_with[where Q = ?Q, OF v gs_inv_initial[OF valid_instanceD(4)[OF v]]])
    show "?Q (initial (establishments this))" by (rule opt_inv_initial)
  next
    fix st1 p st2
    assume i: "gs_inv ?ep ?sp ?k st1" and q: "?Q st1"
      and p: "p \<in> set (free st1)" and it: "gs_iteration ?ep ?sp ?k st1 p = Inr st2"
    from gs_iteration_opt[OF i ep sp pairing q p it] show "?Q st2" .
  qed
  then obtain st where
    loop: "ep_loop this (initial (establishments this)) = Inr st"
    and inv: "gs_inv ?ep ?sp ?k st" and opt: "?Q st" and fin: "free st = []" by blast
  have ainv: "abs_inv ?ep ?sp ?k {} (map_of (engaged st)) (proposals st)"
    using inv fin by (simp add: gs_inv_def)
  have "0 \<le> indexOf (?ep ! e) (find_key (ep_matching st) e)
        \<and> indexOf (?ep ! e) (find_key (ep_matching st) e)
             \<le> indexOf (?ep ! e) (find_key m' e)" if e: "e < ?k" for e
  proof -
    let ?g = "?ep ! e ! (proposals st e - 1)"
    note g = ep_matching_find[OF inv ep fin e]
    have gk: "?g < ?k" using valid_prefs_nth[OF ep e, of "proposals st e - 1"] g(3,4) by simp
    note l = bijective_matching_lookup(4,5)[OF b e]
    have "indexOf (?ep ! e) (find_key (ep_matching st) e) = int (first_index (?ep ! e) ?g)"
      using g(1) indexOf_member[OF valid_prefs_member[OF ep e gk]] by simp
    moreover have "indexOf (?ep ! e) (find_key m' e)
                    = int (first_index (?ep ! e) (holder_of m' e))"
      using l(1) indexOf_member[OF valid_prefs_member[OF ep e l(2)]] by simp
    ultimately show ?thesis using opt_inv_final[OF ainv opt ep pairing e] by simp
  qed
  with solveEstablishmentsPropose_eq[OF loop v] show ?thesis by blast
qed

text \<open>
  C3: on a valid instance, let \<open>m'\<close> be any stable matching: a bijection between the students
  and the establishments that \<open>verifyStability\<close> reports stable. When the students propose,
  every student \<open>s\<close> has a partner in the returned matching, at a position of \<open>s\<close>'s list
  that is at most the position of \<open>m'[s]\<close>. When the establishments propose, the same holds
  for every establishment \<open>e\<close> and its partners, the students matched to \<open>e\<close>.
\<close>

theorem proposer_optimal:
  assumes "valid_instance this" and "bijective_matching (engine_n this) m'"
    and "verifyStability this m' = Inr (True, [])"
  shows "(\<exists>m counts this'. solveStudentsPropose this = (Inr (m, counts), this')
           \<and> (\<forall>s<engine_n this.
                 0 \<le> indexOf (studentPrefs this ! s) (Map_get m (Some s))
                 \<and> indexOf (studentPrefs this ! s) (Map_get m (Some s))
                     \<le> indexOf (studentPrefs this ! s) (Map_get m' (Some s))))
       \<and> (\<exists>m cursors. solveEstablishmentsPropose this = Inr (m, cursors)
           \<and> (\<forall>e<engine_n this.
                 0 \<le> indexOf (establishmentPrefs this ! e) (find_key m e)
                 \<and> indexOf (establishmentPrefs this ! e) (find_key m e)
                     \<le> indexOf (establishmentPrefs this ! e) (find_key m' e)))"
  using sp_optimal[OF assms] ep_optimal[OF assms] by (rule conjI)

theorem proposer_optimal_witness:
  "valid_instance contest \<and> bijective_matching (engine_n contest) contest_other
   \<and> verifyStability contest contest_other = Inr (True, [])
   \<and> (\<exists>m counts this'. solveStudentsPropose contest = (Inr (m, counts), this')
           \<and> (\<forall>s<engine_n contest.
                 0 \<le> indexOf (studentPrefs contest ! s) (Map_get m (Some s))
                 \<and> indexOf (studentPrefs contest ! s) (Map_get m (Some s))
                     \<le> indexOf (studentPrefs contest ! s) (Map_get contest_other (Some s))))
   \<and> (\<exists>m cursors. solveEstablishmentsPropose contest = Inr (m, cursors)
           \<and> (\<forall>e<engine_n contest.
                 0 \<le> indexOf (establishmentPrefs contest ! e) (find_key m e)
                 \<and> indexOf (establishmentPrefs contest ! e) (find_key m e)
                     \<le> indexOf (establishmentPrefs contest ! e) (find_key contest_other e)))"
proof -
  have v: "valid_instance contest" by code_simp
  have b: "bijective_matching (engine_n contest) contest_other" by code_simp
  have s: "verifyStability contest contest_other = Inr (True, [])" by code_simp
  from proposer_optimal[OF v b s] v b s show ?thesis by blast
qed

section \<open>verifyStability on partial matchings\<close>

lemma verify_inner_origin:
  "verify_inner this m s row idxs acc = Inr r \<Longrightarrow> (x, e) \<in> set r \<Longrightarrow>
     (x, e) \<in> set acc \<or> (x = s \<and> idxs \<noteq> [])"
proof (induction idxs arbitrary: acc)
  case Nil
  then show ?case by simp
next
  case (Cons j idxs)
  from Cons.prems Cons.IH show ?case
    by (fastforce simp: Let_def split: option.splits if_splits)
qed

lemma indexOf_undefined: "indexOf xs None = - 1"
  by (simp add: indexOf_def)

lemma verify_outer_origin:
  "verify_outer this m ss acc = Inr r \<Longrightarrow> (x, e) \<in> set r \<Longrightarrow>
     (x, e) \<in> set acc \<or> (x \<in> set ss \<and> Map_get m (Some x) \<noteq> None)"
proof (induction ss arbitrary: acc)
  case Nil
  then show ?case by simp
next
  case (Cons s ss)
  let ?idxs = "[0..<nat (indexOf (studentPrefs this ! s) (Map_get m (Some s)))]"
  from Cons.prems(1) obtain acc' where
    inner: "verify_inner this m s (studentPrefs this ! s) ?idxs acc = Inr acc'"
    and outer: "verify_outer this m ss acc' = Inr r"
    by (auto simp: Let_def split: if_splits sum.splits)
  from Cons.IH[OF outer Cons.prems(2)]
  show ?case
  proof
    assume "(x, e) \<in> set acc'"
    from verify_inner_origin[OF inner this] show ?thesis
    proof
      assume "(x, e) \<in> set acc" then show ?thesis ..
    next
      assume a: "x = s \<and> ?idxs \<noteq> []"
      have "Map_get m (Some s) \<noteq> None"
      proof
        assume "Map_get m (Some s) = None"
        with a show False by (simp add: indexOf_undefined)
      qed
      with a show ?thesis by simp
    qed
  next
    assume "x \<in> set ss \<and> Map_get m (Some x) \<noteq> None"
    then show ?thesis by simp
  qed
qed

lemma verify_outer_empty:
  "\<forall>s\<in>set ss. s < length (studentPrefs this) \<Longrightarrow> verify_outer this [] ss acc = Inr acc"
  by (induction ss arbitrary: acc) (simp_all add: Map_get_def indexOf_undefined)

text \<open>
  C10: a student \<open>s\<close> without a partner in the matching (\<^verbatim>\<open>matching.get(s)\<close> is
  \<^verbatim>\<open>undefined\<close>) is the student of no blocking pair that \<open>verifyStability\<close> returns; on a
  valid instance \<open>verifyStability\<close> returns for every matching, partial or not; and on an
  engine that has a preference row for each of its \<open>n\<close> students the empty matching is
  reported stable with no blocking pair.
\<close>

theorem unmatched_student_not_reported:
  "(verifyStability this m = Inr (verdict, blockingPairs) \<and> Map_get m (Some s) = None
      \<longrightarrow> (s, e) \<notin> set blockingPairs)
   \<and> (valid_instance this \<longrightarrow> (\<exists>bps. verifyStability this m = Inr (bps = [], bps)))
   \<and> (engine_n this \<le> length (studentPrefs this) \<longrightarrow> verifyStability this [] = Inr (True, []))"
proof (intro conjI impI)
  assume a: "verifyStability this m = Inr (verdict, blockingPairs) \<and> Map_get m (Some s) = None"
  then have "verify_outer this m [0..<engine_n this] [] = Inr blockingPairs"
    by (auto simp: verifyStability_def split: sum.splits)
  from verify_outer_origin[OF this, of s e] a show "(s, e) \<notin> set blockingPairs" by auto
next
  assume "valid_instance this"
  from verifyStability_pairs[OF this, of m]
  show "\<exists>bps. verifyStability this m = Inr (bps = [], bps)" by blast
next
  assume "engine_n this \<le> length (studentPrefs this)"
  then have "verify_outer this [] [0..<engine_n this] [] = Inr []"
    by (intro verify_outer_empty) simp
  then show "verifyStability this [] = Inr (True, [])" by (simp add: verifyStability_def)
qed

theorem unmatched_student_not_reported_witness:
  "verifyStability triangle triangle_partial = Inr (False, [(0, 1), (1, 2)])
   \<and> Map_get triangle_partial (Some 2) = None
   \<and> (2 :: nat, 0 :: nat) \<notin> set [(0, 1), (1, 2)]
   \<and> valid_instance triangle
   \<and> engine_n triangle \<le> length (studentPrefs triangle)
   \<and> verifyStability triangle [] = Inr (True, [])"
proof -
  have 1: "verifyStability triangle triangle_partial = Inr (False, [(0, 1), (1, 2)])" by code_simp
  have 2: "Map_get triangle_partial (Some 2) = None" by code_simp
  have 3: "valid_instance triangle" by code_simp
  have 4: "engine_n triangle \<le> length (studentPrefs triangle)" by code_simp
  from unmatched_student_not_reported[of triangle triangle_partial False "[(0, 1), (1, 2)]" 2 0]
    1 2 3 4
  show ?thesis by blast
qed

section \<open>The effect of solve on the engine\<close>

text \<open>
  C9, as stated: solve leaves the engine's stored state as it was, so a second call of
  \<open>solveStudentsPropose\<close> returns the same proposal counts as the first. On the scenario the
  first call returns the counts \<open>[2, 1]\<close> and leaves them in \<^verbatim>\<open>this.proposalCounts\<close>, which
  held \<open>[0, 0]\<close>; the second call returns the same matching with the counts \<open>[4, 2]\<close>.
\<close>

theorem second_call_counts_differ:
  "proposalCounts scenario = [Some (Fin 0), Some (Fin 0)]
   \<and> fst (solveStudentsPropose scenario) = Inr (scenario_matching, [Some (Fin 2), Some (Fin 1)])
   \<and> proposalCounts (snd (solveStudentsPropose scenario)) = [Some (Fin 2), Some (Fin 1)]
   \<and> fst (solveStudentsPropose (snd (solveStudentsPropose scenario)))
       = Inr (scenario_matching, [Some (Fin 4), Some (Fin 2)])"
  by code_simp

text \<open>
  C9, amended: on a valid instance whose \<^verbatim>\<open>proposalCounts\<close> array has an entry for every
  student, \<open>solveStudentsPropose\<close> leaves the participant lists, the preference lists and
  \<open>n\<close> unchanged, and increments the stored count of every student \<open>s\<close> once per proposal of
  \<open>s\<close>, a positive number \<open>a s\<close> of times; the counts it returns are the stored ones. A second
  call returns the same matching and increments every count by \<open>a s\<close> again.
  (\<open>solveEstablishmentsPropose\<close> assigns to no field of the engine.)
\<close>

theorem solve_twice:
  assumes "valid_instance this" and "engine_n this \<le> length (proposalCounts this)"
  shows "\<exists>m c this1 c2 this2 a.
           solveStudentsPropose this = (Inr (m, c), this1)
           \<and> solveStudentsPropose this1 = (Inr (m, c2), this2)
           \<and> same_instance this this1 \<and> same_instance this this2
           \<and> proposalCounts this1 = c \<and> proposalCounts this2 = c2
           \<and> (\<forall>s<engine_n this. 0 < a s
                 \<and> c ! s = (js_succ ^^ a s) (proposalCounts this ! s)
                 \<and> c2 ! s = (js_succ ^^ a s) (c ! s))"
proof -
  let ?sp = "studentPrefs this" and ?ep = "establishmentPrefs this" and ?k = "engine_n this"
  note v = assms(1) and len = assms(2)
  from sp_result_counted[OF v len] obtain st this1 where
    loop1: "sp_loop this (initial (students this)) = (Inr st, this1)"
    and r1: "solveStudentsPropose this = (Inr (sp_matching st, proposalCounts this1), this1)"
    and s1: "same_instance this this1"
    and inv: "gs_inv ?sp ?ep ?k st"
    and c1: "counted (proposalCounts this) this1 st" and fin: "free st = []" by blast
  have v1: "valid_instance this1" using same_instance_valid[OF s1 v] .
  have len1: "engine_n this1 \<le> length (proposalCounts this1)"
    using c1 len s1 by (simp add: counted_def same_instance_def)
  from sp_result_counted[OF v1 len1] obtain st2 this2 where
    loop2: "sp_loop this1 (initial (students this1)) = (Inr st2, this2)"
    and r2: "solveStudentsPropose this1 = (Inr (sp_matching st2, proposalCounts this2), this2)"
    and s2: "same_instance this1 this2"
    and c2: "counted (proposalCounts this1) this2 st2" by blast
  have "students this1 = students this" using s1 by (simp add: same_instance_def)
  with sp_loop_state_indep[OF s1, of "initial (students this)"] loop1 loop2
  have st2: "st2 = st" by simp
  have "0 < proposals st s
        \<and> proposalCounts this1 ! s = (js_succ ^^ proposals st s) (proposalCounts this ! s)
        \<and> proposalCounts this2 ! s = (js_succ ^^ proposals st s) (proposalCounts this1 ! s)"
    if s: "s < ?k" for s
  proof -
    have "s < length (proposalCounts this)" "s < length (proposalCounts this1)"
      using s len len1 s1 by (simp_all add: same_instance_def)
    then show ?thesis
      using c1 c2 st2 sp_matching_get(2)[OF inv valid_instanceD(1)[OF v] fin s]
      by (simp add: counted_def)
  qed
  with r1 r2 st2 s1 same_instance_trans[OF s1 s2] show ?thesis by blast
qed

theorem solve_twice_witness:
  "valid_instance scenario \<and> engine_n scenario \<le> length (proposalCounts scenario)
   \<and> (\<exists>m c this1 c2 this2 a.
           solveStudentsPropose scenario = (Inr (m, c), this1)
           \<and> solveStudentsPropose this1 = (Inr (m, c2), this2)
           \<and> same_instance scenario this1 \<and> same_instance scenario this2
           \<and> proposalCounts this1 = c \<and> proposalCounts this2 = c2
           \<and> (\<forall>s<engine_n scenario. 0 < a s
                 \<and> c ! s = (js_succ ^^ a s) (proposalCounts scenario ! s)
                 \<and> c2 ! s = (js_succ ^^ a s) (c ! s)))"
proof -
  have v: "valid_instance scenario" by code_simp
  have l: "engine_n scenario \<le> length (proposalCounts scenario)" by code_simp
  from solve_twice[OF v l] v l show ?thesis by blast
qed

section \<open>The keys of the returned matching\<close>

lemma funpow_js_succ_Fin: "(js_succ ^^ a) (Some (Fin x)) = Some (Fin (x + of_nat a))"
  by (induction a) (simp_all add: add.assoc)

text \<open>
  C7, as stated: the map returned by \<open>solveEstablishmentsPropose\<close> sends each establishment
  to the student it is matched with. On \<open>triangle\<close> every establishment proposes once:
  establishment 0 to student 2, who accepts. The returned map does not send the key 0 to 2
  but to 1, the establishment of student 0; it sends the key 2 to establishment 0.
\<close>

theorem establishments_result_keyed_by_student:
  "solveEstablishmentsPropose triangle
     = Inr ([(Some 2, Some 0), (Some 0, Some 1), (Some 1, Some 2)], [(0, 1), (1, 1), (2, 1)])
   \<and> establishmentPrefs triangle ! 0 ! (1 - 1) = 2
   \<and> Map_get (returned_matching (solveEstablishmentsPropose triangle)) (Some 0) = Some 1
   \<and> Map_get (returned_matching (solveEstablishmentsPropose triangle)) (Some 0) \<noteq> Some 2
   \<and> Map_get (returned_matching (solveEstablishmentsPropose triangle)) (Some 2) = Some 0"
  by code_simp

text \<open>
  C7, amended: in both directions the returned map is keyed by student and its values are
  establishments. On a valid instance with fresh counters: \<open>solveStudentsPropose\<close> sends
  every student \<open>s\<close> to the establishment \<open>s\<close> proposed to last, the one at position
  \<open>a - 1\<close> of its list where \<open>a\<close> is its returned proposal count; and
  \<open>solveEstablishmentsPropose\<close> sends the student that establishment \<open>e\<close> proposed to last,
  at position \<open>a - 1\<close> of \<open>e\<close>'s list where \<open>a\<close> is \<open>e\<close>'s returned cursor, to \<open>e\<close>: that map
  is from receiver to proposer.
\<close>

theorem matching_keyed_by_student:
  assumes "valid_instance this"
    and "proposalCounts this = replicate (engine_n this) (Some (Fin 0))"
  shows "(\<exists>m counts this'. solveStudentsPropose this = (Inr (m, counts), this')
            \<and> (\<forall>s<engine_n this. \<exists>a>0. counts ! s = Some (Fin (of_nat a))
                  \<and> Map_get m (Some s) = Some (studentPrefs this ! s ! (a - 1))))
       \<and> (\<exists>m cursors. solveEstablishmentsPropose this = Inr (m, cursors)
            \<and> (\<forall>e<engine_n this. \<exists>a>0. map_of cursors e = Some a
                  \<and> Map_get m (Some (establishmentPrefs this ! e ! (a - 1))) = Some e))"
proof
  let ?sp = "studentPrefs this" and ?ep = "establishmentPrefs this" and ?k = "engine_n this"
  note v = assms(1)
  have len: "?k \<le> length (proposalCounts this)" using assms(2) by simp
  from sp_result_counted[OF v len] obtain st this' where
    r: "solveStudentsPropose this = (Inr (sp_matching st, proposalCounts this'), this')"
    and inv: "gs_inv ?sp ?ep ?k st"
    and c: "counted (proposalCounts this) this' st" and fin: "free st = []" by blast
  have "\<exists>a>0. proposalCounts this' ! s = Some (Fin (of_nat a))
           \<and> Map_get (sp_matching st) (Some s) = Some (?sp ! s ! (a - 1))" if s: "s < ?k" for s
  proof -
    note g = sp_matching_get[OF inv valid_instanceD(1)[OF v] fin s]
    have "proposalCounts this' ! s = (js_succ ^^ proposals st s) (Some (Fin 0))"
      using c s assms(2) by (simp add: counted_def)
    then have "proposalCounts this' ! s = Some (Fin (of_nat (proposals st s)))"
      by (simp add: funpow_js_succ_Fin)
    with g show ?thesis by blast
  qed
  with r show "\<exists>m counts this'. solveStudentsPropose this = (Inr (m, counts), this')
            \<and> (\<forall>s<?k. \<exists>a>0. counts ! s = Some (Fin (of_nat a))
                  \<and> Map_get m (Some s) = Some (?sp ! s ! (a - 1)))" by blast
next
  let ?sp = "studentPrefs this" and ?ep = "establishmentPrefs this" and ?k = "engine_n this"
  note v = assms(1)
  from ep_result[OF v] obtain st where
    r: "solveEstablishmentsPropose this =
          Inr (ep_matching st, map (\<lambda>e. (e, proposals st e)) (establishments this))"
    and inv: "gs_inv ?ep ?sp ?k st" and fin: "free st = []" by blast
  let ?cursors = "map (\<lambda>e. (e, proposals st e)) (establishments this)"
  have "\<exists>a>0. map_of ?cursors e = Some a
           \<and> Map_get (ep_matching st) (Some (?ep ! e ! (a - 1))) = Some e" if e: "e < ?k" for e
  proof -
    note g = ep_matching_find[OF inv valid_instanceD(2)[OF v] fin e]
    have "e \<in> set (establishments this)"
      using valid_side_set[OF valid_instanceD(4)[OF v]] e by simp
    then have "map_of ?cursors e = Some (proposals st e)"
      by (simp add: map_of_map_restrict)
    with g show ?thesis by blast
  qed
  with r show "\<exists>m cursors. solveEstablishmentsPropose this = Inr (m, cursors)
            \<and> (\<forall>e<?k. \<exists>a>0. map_of cursors e = Some a
                  \<and> Map_get m (Some (?ep ! e ! (a - 1))) = Some e)" by blast
qed

theorem matching_keyed_by_student_witness:
  "valid_instance triangle
   \<and> proposalCounts triangle = replicate (engine_n triangle) (Some (Fin 0))
   \<and> (\<exists>m counts this'. solveStudentsPropose triangle = (Inr (m, counts), this')
            \<and> (\<forall>s<engine_n triangle. \<exists>a>0. counts ! s = Some (Fin (of_nat a))
                  \<and> Map_get m (Some s) = Some (studentPrefs triangle ! s ! (a - 1))))
   \<and> (\<exists>m cursors. solveEstablishmentsPropose triangle = Inr (m, cursors)
            \<and> (\<forall>e<engine_n triangle. \<exists>a>0. map_of cursors e = Some a
                  \<and> Map_get m (Some (establishmentPrefs triangle ! e ! (a - 1))) = Some e))"
proof -
  have v: "valid_instance triangle" by code_simp
  have f: "proposalCounts triangle = replicate (engine_n triangle) (Some (Fin 0))"
    by (simp add: triangle_def constructor_def)
  from matching_keyed_by_student[OF v f] v f show ?thesis by blast
qed

section \<open>Malformed preference lists\<close>

text \<open>
  Every participant has a row, every row has at least \<open>n\<close> entries, and every entry has a
  row on the other side. Rows may repeat or omit participants.
\<close>

definition rows_present :: "engine \<Rightarrow> bool" where
  "rows_present this =
     ((\<forall>s\<in>set (students this). s < length (studentPrefs this))
      \<and> (\<forall>e\<in>set (establishments this). e < length (establishmentPrefs this))
      \<and> (\<forall>row\<in>set (studentPrefs this).
            engine_n this \<le> length row \<and> (\<forall>e\<in>set row. e < length (establishmentPrefs this)))
      \<and> (\<forall>row\<in>set (establishmentPrefs this).
            engine_n this \<le> length row \<and> (\<forall>s\<in>set row. s < length (studentPrefs this))))"

lemma gs_iteration_no_error:
  assumes p: "p \<in> set (free st)"
    and sub: "set (free st) \<union> snd ` set (engaged st) \<subseteq> P"
    and rows: "\<forall>p\<in>P. p < length pp"
    and entries: "\<forall>row\<in>set pp. k \<le> length row \<and> (\<forall>q\<in>set row. q < length rp)"
  shows "\<exists>st'. gs_iteration pp rp k st p = Inr st'
           \<and> set (free st') \<union> snd ` set (engaged st') \<subseteq> P"
proof (cases "proposals st p \<ge> k")
  case True
  then show ?thesis using sub by (auto simp: gs_iteration_def)
next
  case False
  let ?i = "proposals st p"
  have pl: "p < length pp" using p sub rows by auto
  then have "pp ! p \<in> set pp" by simp
  with entries have row: "k \<le> length (pp ! p)" "\<forall>q\<in>set (pp ! p). q < length rp" by auto
  have il: "?i < length (pp ! p)" using False row(1) by simp
  then have nth: "js_nth (pp ! p) ?i = Some (pp ! p ! ?i)" by (simp add: js_nth_def)
  have ql: "pp ! p ! ?i < length rp" using row(2) il by simp
  have pP: "p \<in> P" using p sub by auto
  have vals: "snd ` set (Map_set (engaged st) (Some (pp ! p ! ?i)) p) \<subseteq> P"
    using values_Map_set[of "engaged st" "Some (pp ! p ! ?i)" p] sub pP by blast
  have fr: "set (free st) \<subseteq> P" "snd ` set (engaged st) \<subseteq> P" using sub by auto
  show ?thesis
  proof (cases "map_of (engaged st) (Some (pp ! p ! ?i))")
    case None
    then show ?thesis using False pl nth vals fr
      by (simp add: gs_iteration_def Let_def) blast
  next
    case (Some c)
    have "c \<in> P" using map_of_value[OF Some] sub by auto
    then show ?thesis using Some False pl nth ql vals fr
      by (simp add: gs_iteration_def Let_def) blast
  qed
qed

lemma sp_loop_no_error:
  assumes r: "rows_present this"
  shows "\<exists>st this'. sp_loop this (initial (students this)) = (Inr st, this')"
proof -
  let ?P = "\<lambda>this' st. same_instance this this'
              \<and> set (free st) \<union> snd ` set (engaged st) \<subseteq> set (students this)"
  have "\<exists>st' this'. sp_loop this (initial (students this)) = (Inr st', this')
          \<and> ?P this' st' \<and> free st' = []"
  proof (rule sp_loop_invariant[where P = ?P])
    show "?P this (initial (students this))"
      by (simp add: same_instance_refl initial_def set_new_Set)
  next
    fix this1 :: engine and st1 :: state and p rest
    assume P1: "?P this1 st1" and f: "free st1 = p # rest"
    have s: "same_instance this this1" using P1 by simp
    have p: "p \<in> set (free st1)" using f by simp
    from gs_iteration_no_error[OF p, of "set (students this)" "studentPrefs this"
        "engine_n this" "establishmentPrefs this"] P1 r
    obtain st' where st': "gs_iteration (studentPrefs this) (establishmentPrefs this)
        (engine_n this) st1 p = Inr st'"
      and sub: "set (free st') \<union> snd ` set (engaged st') \<subseteq> set (students this)"
      unfolding rows_present_def by blast
    define this' where "this' = snd (sp_iteration this1 st1 p)"
    have it: "sp_iteration this1 st1 p = (Inr st', this')"
      using sp_iteration_gs[of this1 st1 p] st' s
      by (simp add: this'_def prod_eq_iff same_instance_def)
    have "same_instance this this'"
      using s sp_iteration_same_instance[of this1 st1 p]
      by (simp add: same_instance_def this'_def)
    with it sub show "\<exists>st' this'. sp_iteration this1 st1 p = (Inr st', this') \<and> ?P this' st'"
      by blast
  qed
  then show ?thesis by blast
qed

lemma ep_loop_no_error:
  assumes r: "rows_present this"
  shows "\<exists>st. ep_loop this (initial (establishments this)) = Inr st"
proof -
  let ?P = "\<lambda>st. set (free st) \<union> snd ` set (engaged st) \<subseteq> set (establishments this)"
  have "\<exists>st'. ep_loop this (initial (establishments this)) = Inr st' \<and> ?P st' \<and> free st' = []"
  proof (rule ep_loop_invariant[where P = ?P])
    show "?P (initial (establishments this))"
      by (simp add: initial_def set_new_Set)
  next
    fix st1 :: state and p rest
    assume P1: "?P st1" and f: "free st1 = p # rest"
    have p: "p \<in> set (free st1)" using f by simp
    from gs_iteration_no_error[OF p, of "set (establishments this)" "establishmentPrefs this"
        "engine_n this" "studentPrefs this"] P1 r
    show "\<exists>st'. ep_iteration this st1 p = Inr st' \<and> ?P st'"
      unfolding rows_present_def ep_iteration_gs by blast
  qed
  then show ?thesis by blast
qed

text \<open>
  C6, as stated: a malformed preference list is reported as an error at construction and
  solve never runs on it without an error. The constructor has no failure: it stores what it
  is given. On \<open>duplicated\<close>, whose student lists repeat establishment 0 and omit
  establishment 1, and on \<open>shortened\<close>, whose student lists are too short, both solve
  methods return normally: a partial matching, a matching built on the rank \<open>-1\<close> of a
  missing participant, and a matching with an \<^verbatim>\<open>undefined\<close> partner.
\<close>

theorem malformed_lists_not_detected:
  "\<not> valid_instance duplicated \<and> \<not> valid_instance shortened
   \<and> studentPrefs duplicated = [[0, 0], [0, 0]] \<and> studentPrefs shortened = [[0], [0]]
   \<and> fst (solveStudentsPropose duplicated) = Inr ([(Some 0, Some 0)], [Some (Fin 1), Some (Fin 2)])
   \<and> solveEstablishmentsPropose duplicated
       = Inr ([(Some 0, Some 1), (Some 1, Some 0)], [(0, 2), (1, 1)])
   \<and> fst (solveStudentsPropose shortened)
       = Inr ([(Some 0, Some 0), (Some 1, None)], [Some (Fin 1), Some (Fin 2)])"
  by code_simp

text \<open>
  C6, amended: the constructor validates nothing and reports no error; it stores its
  arguments, the length of \<open>students\<close> as \<open>n\<close> and \<open>n\<close> zero counters. A preference list with
  a duplicate entry or a missing participant is tolerated silently: on every constructed
  instance in which each participant has a row, each row has at least \<open>n\<close> entries and each
  entry has a row on the other side, both solve methods return a matching and raise nothing.
\<close>

theorem malformed_lists_tolerated:
  assumes "rows_present (constructor sts ests sprefs eprefs)"
  shows "students (constructor sts ests sprefs eprefs) = sts
       \<and> establishments (constructor sts ests sprefs eprefs) = ests
       \<and> studentPrefs (constructor sts ests sprefs eprefs) = sprefs
       \<and> establishmentPrefs (constructor sts ests sprefs eprefs) = eprefs
       \<and> engine_n (constructor sts ests sprefs eprefs) = length sts
       \<and> proposalCounts (constructor sts ests sprefs eprefs) = replicate (length sts) (Some (Fin 0))
       \<and> (\<exists>m counts this'.
             solveStudentsPropose (constructor sts ests sprefs eprefs) = (Inr (m, counts), this'))
       \<and> (\<exists>m cursors.
             solveEstablishmentsPropose (constructor sts ests sprefs eprefs) = Inr (m, cursors))"
proof -
  let ?e = "constructor sts ests sprefs eprefs"
  from sp_loop_no_error[OF assms] obtain st this' where
    "sp_loop ?e (initial (students ?e)) = (Inr st, this')" by blast
  then have 1: "\<exists>m counts this'. solveStudentsPropose ?e = (Inr (m, counts), this')"
    by (simp add: solveStudentsPropose_def)
  from ep_loop_no_error[OF assms] obtain st where
    "ep_loop ?e (initial (establishments ?e)) = Inr st" by blast
  then have 2: "\<exists>m cursors. solveEstablishmentsPropose ?e = Inr (m, cursors)"
    by (simp add: solveEstablishmentsPropose_def)
  show ?thesis using 1 2 by (simp add: constructor_def)
qed

theorem malformed_lists_tolerated_witness:
  "rows_present (constructor [0, 1] [0, 1] [[0, 0], [0, 0]] [[0, 1], [0, 1]])
   \<and> \<not> valid_prefs 2 [[0, 0], [0, 0]]
   \<and> (\<exists>m counts this'.
         solveStudentsPropose (constructor [0, 1] [0, 1] [[0, 0], [0, 0]] [[0, 1], [0, 1]])
           = (Inr (m, counts), this'))
   \<and> (\<exists>m cursors.
         solveEstablishmentsPropose (constructor [0, 1] [0, 1] [[0, 0], [0, 0]] [[0, 1], [0, 1]])
           = Inr (m, cursors))"
proof -
  have r: "rows_present (constructor [0, 1] [0, 1] [[0, 0], [0, 0]] [[0, 1], [0, 1]])"
    by code_simp
  have n: "\<not> valid_prefs 2 [[0, 0], [0, 0]]" by code_simp
  from malformed_lists_tolerated[OF r] r n show ?thesis by blast
qed

end
